theory Spec2Isabelle
  imports Main "HOL-Library.AList"
begin

section \<open>JavaScript values and exceptions\<close>

text \<open>
  The driver of \<^verbatim>\<open>src/index.ts\<close> handles values that come out of \<^verbatim>\<open>JSON.parse\<close>, plus
  \<^verbatim>\<open>undefined\<close> (an absent property, a callback that returns nothing). Numbers are the
  integer-valued ones (request ids, counters); an object is the list of its own
  properties, each key once.
\<close>

datatype jsval =
    JUndefined
  | JNull
  | JBool bool
  | JNum int
  | JStr string
  | JArr "jsval list"
  | JObj "(string \<times> jsval) list"

text \<open>
  What the code can throw: the runtime's \<^verbatim>\<open>SyntaxError\<close> (of \<^verbatim>\<open>JSON.parse\<close>),
  \<^verbatim>\<open>TypeError\<close> and \<^verbatim>\<open>InvalidStateError\<close> (of \<^verbatim>\<open>WebSocket.send\<close> on a socket that is still
  connecting), and the class \<^verbatim>\<open>SurrealError(message, detail)\<close> of lines 1-5, whose detail
  is a value or a caught exception.
\<close>

datatype exn =
    SyntaxError
  | TypeError
  | InvalidStateError
  | SurrealError jsval detail
and detail =
    DVal jsval
  | DExn exn

text \<open>Truthiness, as \<^verbatim>\<open>if (x)\<close>, \<^verbatim>\<open>x && y\<close> and \<^verbatim>\<open>x ? a : b\<close> test it.\<close>

fun truthy :: "jsval \<Rightarrow> bool" where
  "truthy JUndefined = False"
| "truthy JNull = False"
| "truthy (JBool b) = b"
| "truthy (JNum n) = (n \<noteq> 0)"
| "truthy (JStr s) = (s \<noteq> [])"
| "truthy (JArr xs) = True"
| "truthy (JObj fs) = True"

text \<open>
  Reading a property \<^verbatim>\<open>v.k\<close>, for the keys the driver reads (\<^verbatim>\<open>id\<close>, \<^verbatim>\<open>result\<close>, \<^verbatim>\<open>error\<close>,
  \<^verbatim>\<open>message\<close>, \<^verbatim>\<open>status\<close>), none of which a prototype defines: \<^verbatim>\<open>null\<close> and \<^verbatim>\<open>undefined\<close>
  throw, an object gives its own property, anything else \<^verbatim>\<open>undefined\<close>.
\<close>

definition field :: "(string \<times> jsval) list \<Rightarrow> string \<Rightarrow> jsval" where
  "field fs k = (case map_of fs k of Some v \<Rightarrow> v | None \<Rightarrow> JUndefined)"

fun get_prop :: "jsval \<Rightarrow> string \<Rightarrow> exn + jsval" where
  "get_prop JUndefined k = Inl TypeError"
| "get_prop JNull k = Inl TypeError"
| "get_prop (JObj fs) k = Inr (field fs k)"
| "get_prop v k = Inr JUndefined"

text \<open>
  Writing a property \<^verbatim>\<open>v.k = x\<close> in strict code (a class body): an object is updated,
  \<^verbatim>\<open>null\<close>, \<^verbatim>\<open>undefined\<close> and the primitives throw. An array takes the property too; the
  model keeps the array's elements only.
\<close>

fun set_prop :: "jsval \<Rightarrow> string \<Rightarrow> jsval \<Rightarrow> exn + jsval" where
  "set_prop (JObj fs) k x = Inr (JObj (AList.update k x fs))"
| "set_prop (JArr xs) k x = Inr (JArr xs)"
| "set_prop v k x = Inl TypeError"

subsection \<open>Numbers and values as text\<close>

text \<open>The character of a decimal digit \<open>d < 10\<close>.\<close>

definition digit_char :: "nat \<Rightarrow> char" where
  "digit_char d = ''0123456789'' ! d"

text \<open>\<^verbatim>\<open>`${id}`\<close> for a counter value: its decimal digits.\<close>

fun dec :: "nat \<Rightarrow> string" where
  "dec n = (if n < 10 then [digit_char n] else dec (n div 10) @ [digit_char (n mod 10)])"

declare dec.simps [simp del]

definition int_dec :: "int \<Rightarrow> string" where
  "int_dec i = (if i < 0 then ''-'' @ dec (nat (- i)) else dec (nat i))"

fun js_join :: "string \<Rightarrow> string list \<Rightarrow> string" where
  "js_join sep [] = []"
| "js_join sep [x] = x"
| "js_join sep (x # y # zs) = x @ sep @ js_join sep (y # zs)"

text \<open>
  \<^verbatim>\<open>String(v)\<close>, which is also the property key \<^verbatim>\<open>obj[v]\<close> uses. An array prints its
  elements joined by commas, \<^verbatim>\<open>null\<close> and \<^verbatim>\<open>undefined\<close> elements as nothing.
\<close>

fun to_string :: "jsval \<Rightarrow> string"
  and elem_strings :: "jsval list \<Rightarrow> string list" where
  "to_string JUndefined = ''undefined''"
| "to_string JNull = ''null''"
| "to_string (JBool b) = (if b then ''true'' else ''false'')"
| "to_string (JNum i) = int_dec i"
| "to_string (JStr s) = s"
| "to_string (JArr xs) = js_join '','' (elem_strings xs)"
| "to_string (JObj fs) = ''[object Object]''"
| "elem_strings [] = []"
| "elem_strings (x # xs) =
     (if x = JUndefined \<or> x = JNull then [] else to_string x) # elem_strings xs"

text \<open>\<^verbatim>\<open>xs.join(sep)\<close>\<close>

definition array_join :: "string \<Rightarrow> jsval list \<Rightarrow> string" where
  "array_join sep xs = js_join sep (elem_strings xs)"

section \<open>The connection handle\<close>

text \<open>
  A pending entry of \<^verbatim>\<open>channels\<close> (lines 40-42, 117) holds two callables and the request
  text. A callable acts on the world \<open>'w\<close> outside the handle (for the entries \<^verbatim>\<open>send\<close>
  makes, the promise it settles) and may throw.
\<close>

record 'w channel =
  resolve :: "jsval \<Rightarrow> 'w \<Rightarrow> 'w \<times> exn option"
  reject :: "exn \<Rightarrow> 'w \<Rightarrow> 'w \<times> exn option"
  sql :: string

text \<open>
  The fields of class \<^verbatim>\<open>Surreal\<close>: \<^verbatim>\<open>opt?.ns\<close>, \<^verbatim>\<open>opt?.db\<close>, \<^verbatim>\<open>ws\<close> (the index of a socket, or
  none while the field is unset), the counter \<^verbatim>\<open>state\<close>, and \<^verbatim>\<open>channels\<close>, an object whose
  property keys are strings.
\<close>

record 'w surreal =
  opt_ns :: "string option"
  opt_db :: "string option"
  ws :: "nat option"
  state :: nat
  channels :: "string \<rightharpoonup> 'w channel"

definition new_Surreal :: "string option \<Rightarrow> string option \<Rightarrow> 'w surreal" where
  "new_Surreal ns db =
     \<lparr>opt_ns = ns, opt_db = db, ws = None, state = 0, channels = Map.empty\<rparr>"

subsection \<open>Request ids (lines 44-49)\<close>

text \<open>
  \<^verbatim>\<open>if (this.state > 1000) { this.state = 0 }; return this.state++\<close>
\<close>

definition id_getter :: "'w surreal \<Rightarrow> nat \<times> 'w surreal" where
  "id_getter h =
     (let h1 = (if state h > 1000 then h\<lparr>state := 0\<rparr> else h)
      in (state h1, h1\<lparr>state := state h1 + 1\<rparr>))"

text \<open>\<open>allocate n h\<close>: the ids of \<open>n\<close> successive reads of \<^verbatim>\<open>this.id\<close>, and the handle after.\<close>

fun allocate :: "nat \<Rightarrow> 'w surreal \<Rightarrow> nat list \<times> 'w surreal" where
  "allocate 0 h = ([], h)"
| "allocate (Suc n) h =
     (case id_getter h of (i, h1) \<Rightarrow>
        (case allocate n h1 of (js, h2) \<Rightarrow> (i # js, h2)))"

subsection \<open>The request envelope (lines 113-115, 130-132)\<close>

text \<open>
  \<^verbatim>\<open>`{"id":${id},"method":"${method}"${ params ? `,"params":${params}` : "" }}`\<close>:
  the method and the parameter text go into the frame as they are; an absent or empty
  parameter text leaves the member out.
\<close>

definition send_sql :: "nat \<Rightarrow> string \<Rightarrow> string option \<Rightarrow> string" where
  \<open>send_sql i method params =
     ''{"id":'' @ dec i @ '',"method":"'' @ method @ ''"'' @
     (case params of
        None \<Rightarrow> []
      | Some p \<Rightarrow> if p \<noteq> [] then '',"params":'' @ p else []) @
     ''}''\<close>

text \<open>\<^verbatim>\<open>use(ns, db)\<close> sends \<^verbatim>\<open>`["${ns}","${db}"]`\<close> as the parameters of method \<^verbatim>\<open>use\<close>.\<close>

definition use_params :: "string \<Rightarrow> string \<Rightarrow> string" where
  \<open>use_params ns db = ''["'' @ ns @ ''","'' @ db @ ''"]''\<close>

subsection \<open>The end of send (lines 120-127)\<close>

text \<open>
  \<open>send_finish text result\<close> is what \<^verbatim>\<open>send\<close> does with the value \<^verbatim>\<open>result\<close> its promise
  was fulfilled with, \<open>text\<close> being the request it had sent:
  \<^verbatim>\<open>if (result.error) { result.error.sql = sql; throw new SurrealError(result.error.message, result.error) }
  return result.result\<close>
\<close>

definition send_finish :: "string \<Rightarrow> jsval \<Rightarrow> exn + jsval" where
  "send_finish text result =
     (case get_prop result ''error'' of
        Inl x \<Rightarrow> Inl x
      | Inr err \<Rightarrow>
          if truthy err then
            (case set_prop err ''sql'' (JStr text) of
               Inl x \<Rightarrow> Inl x
             | Inr err' \<Rightarrow>
                 (case get_prop err' ''message'' of
                    Inl x \<Rightarrow> Inl x
                  | Inr m \<Rightarrow> Inl (SurrealError m (DVal err'))))
          else get_prop result ''result'')"

subsection \<open>query (lines 205-224)\<close>

text \<open>
  Line 206, with \<^verbatim>\<open>JSON.stringify\<close> a parameter:
  \<^verbatim>\<open>JSON.stringify(ql) + (params ? "," + JSON.stringify(params) : "")\<close>
\<close>

definition query_sql :: "(jsval \<Rightarrow> string) \<Rightarrow> string \<Rightarrow> jsval option \<Rightarrow> string" where
  "query_sql stringify ql params =
     stringify (JStr ql) @
     (case params of
        None \<Rightarrow> []
      | Some p \<Rightarrow> if truthy p then '','' @ stringify p else [])"

text \<open>
  The callback of \<^verbatim>\<open>map\<close> (lines 211-217) on one element \<open>e\<close>, with the \<^verbatim>\<open>errs\<close> collected so
  far: \<^verbatim>\<open>if (e.status === "ERR") { errs.push(e.result); return }  return e.result\<close>
\<close>

definition query_each :: "jsval \<Rightarrow> jsval list \<Rightarrow> exn + (jsval \<times> jsval list)" where
  "query_each e errs =
     (case get_prop e ''status'' of
        Inl x \<Rightarrow> Inl x
      | Inr st \<Rightarrow>
          if st = JStr ''ERR'' then
            (case get_prop e ''result'' of
               Inl x \<Rightarrow> Inl x
             | Inr r \<Rightarrow> Inr (JUndefined, errs @ [r]))
          else
            (case get_prop e ''result'' of
               Inl x \<Rightarrow> Inl x
             | Inr r \<Rightarrow> Inr (r, errs)))"

text \<open>\<^verbatim>\<open>array.map(callback)\<close>: the callback on each element in order, stopping at a throw.\<close>

fun query_map :: "jsval list \<Rightarrow> jsval list \<Rightarrow> exn + (jsval list \<times> jsval list)" where
  "query_map [] errs = Inr ([], errs)"
| "query_map (e # es) errs =
     (case query_each e errs of
        Inl x \<Rightarrow> Inl x
      | Inr (r, errs1) \<Rightarrow>
          (case query_map es errs1 of
             Inl x \<Rightarrow> Inl x
           | Inr (rs, errs2) \<Rightarrow> Inr (r # rs, errs2)))"

text \<open>
  Lines 210-223 on the value \<open>response\<close> that \<^verbatim>\<open>send\<close> returned, \<open>text\<close> being line 206's
  \<^verbatim>\<open>sql\<close>. \<^verbatim>\<open>response.result.map(...)\<close> throws a TypeError unless \<^verbatim>\<open>response.result\<close> is an
  array.
\<close>

definition query_result :: "string \<Rightarrow> jsval \<Rightarrow> exn + jsval" where
  "query_result text response =
     (case get_prop response ''result'' of
        Inl x \<Rightarrow> Inl x
      | Inr (JArr es) \<Rightarrow>
          (case query_map es [] of
             Inl x \<Rightarrow> Inl x
           | Inr (results, errs) \<Rightarrow>
               if errs \<noteq> [] then
                 Inl (SurrealError (JStr (array_join '';'' errs))
                        (DVal (JObj [(''sql'', JStr text)])))
               else Inr (JArr results))
      | Inr v \<Rightarrow> Inl TypeError)"

section \<open>The message listener (lines 78-99)\<close>

text \<open>
  \<^verbatim>\<open>this.channels[app.id]\<close> finds an own entry, or a property every object inherits from
  \<^verbatim>\<open>Object.prototype\<close> (which is truthy and has no \<^verbatim>\<open>resolve\<close>), or nothing.
\<close>

definition object_prototype :: "string list" where
  "object_prototype =
     [''constructor'', ''hasOwnProperty'', ''isPrototypeOf'', ''propertyIsEnumerable'',
      ''toLocaleString'', ''toString'', ''valueOf'', ''__proto__'',
      ''__defineGetter__'', ''__defineSetter__'', ''__lookupGetter__'', ''__lookupSetter__'']"

datatype 'w slot = Own "'w channel" | Inherited | Absent

definition channel_at :: "(string \<rightharpoonup> 'w channel) \<Rightarrow> string \<Rightarrow> 'w slot" where
  "channel_at chs k =
     (case chs k of
        Some c \<Rightarrow> Own c
      | None \<Rightarrow> if k \<in> set object_prototype then Inherited else Absent)"

text \<open>
  How one run of the listener ends: normally, with the warning of line 85 (for the
  key it looked up), or by throwing (the runtime reports an error a listener throws;
  the socket stays as it is).
\<close>

datatype outcome = Done | Warned string | Thrown exn

text \<open>Line 97: \<^verbatim>\<open>new SurrealError("Failed parse JSON from surreal: " + e.data, err)\<close>\<close>

definition parse_failure :: "string \<Rightarrow> exn \<Rightarrow> exn" where
  "parse_failure data err =
     SurrealError (JStr (''Failed parse JSON from surreal: '' @ data)) (DExn err)"

text \<open>
  The listener on the frame text \<open>data\<close>, with \<^verbatim>\<open>JSON.parse\<close> a parameter that gives no value
  where it throws. The inner \<^verbatim>\<open>try\<close> calls \<^verbatim>\<open>resolve\<close>, on a throw \<^verbatim>\<open>reject\<close> with what was
  thrown, and deletes the entry in its \<^verbatim>\<open>finally\<close>; whatever is thrown inside the outer
  \<^verbatim>\<open>try\<close> is rethrown as line 97's error.
\<close>

definition on_message ::
  "(string \<Rightarrow> jsval option) \<Rightarrow> string \<Rightarrow> 'w surreal \<Rightarrow> 'w \<Rightarrow> 'w surreal \<times> 'w \<times> outcome" where
  "on_message parse data h w =
     (case parse data of
        None \<Rightarrow> (h, w, Thrown (parse_failure data SyntaxError))
      | Some app \<Rightarrow>
          (case get_prop app ''id'' of
             Inl x \<Rightarrow> (h, w, Thrown (parse_failure data x))
           | Inr i \<Rightarrow>
               (case channel_at (channels h) (to_string i) of
                  Absent \<Rightarrow> (h, w, Warned (to_string i))
                | Inherited \<Rightarrow> (h, w, Thrown (parse_failure data TypeError))
                | Own channel \<Rightarrow>
                    (let h' = h\<lparr>channels := (channels h)(to_string i := None)\<rparr> in
                     case resolve channel app w of
                       (w1, None) \<Rightarrow> (h', w1, Done)
                     | (w1, Some err) \<Rightarrow>
                         (case reject channel err w1 of
                            (w2, None) \<Rightarrow> (h', w2, Done)
                          | (w2, Some err2) \<Rightarrow> (h', w2, Thrown (parse_failure data err2)))))))"

section \<open>Promises, sockets and the event loop\<close>

text \<open>
  The driver runs on JavaScript's event loop: one task at a time, each to completion
  with the promise jobs it queues, so every \<^verbatim>\<open>async\<close> function runs in pieces that start
  at a call or after an \<^verbatim>\<open>await\<close>. The model has one function for each piece and one
  step for each task: a call of the public interface, or an event of a socket. A task
  starts with no promise job waiting, so the pieces that follow one another without
  waiting for an event (an \<^verbatim>\<open>await\<close> of a promise that is already settled, or that the task
  itself settles) run within the task, in the order of the code.

  A promise made by \<^verbatim>\<open>Promise.withResolvers\<close> is a cell, empty until it is settled;
  settling it queues the job that resumes whoever awaits it.
\<close>

record promise_store =
  cells :: "(exn + jsval) option list"
  jobs :: "nat list"

definition withResolvers :: "promise_store \<Rightarrow> nat \<times> promise_store" where
  "withResolvers w = (length (cells w), w\<lparr>cells := cells w @ [None]\<rparr>)"

definition settle :: "nat \<Rightarrow> exn + jsval \<Rightarrow> promise_store \<Rightarrow> promise_store" where
  "settle p r w =
     (if p < length (cells w) \<and> cells w ! p = None
      then w\<lparr>cells := (cells w)[p := Some r], jobs := jobs w @ [p]\<rparr>
      else w)"

text \<open>The two functions of a promise: neither throws, and only the first call counts.\<close>

definition resolver :: "nat \<Rightarrow> jsval \<Rightarrow> promise_store \<Rightarrow> promise_store \<times> exn option" where
  "resolver p v w = (settle p (Inr v) w, None)"

definition rejecter :: "nat \<Rightarrow> exn \<Rightarrow> promise_store \<Rightarrow> promise_store \<times> exn option" where
  "rejecter p e w = (settle p (Inl e) w, None)"

text \<open>
  A socket: its \<^verbatim>\<open>readyState\<close>, whether the listener of lines 78-99 is installed on it, and
  the frames \<^verbatim>\<open>send\<close> has put on its wire, oldest first.
\<close>

datatype ready_state = CONNECTING | OPEN | CLOSING | CLOSED

record socket =
  readyState :: ready_state
  listening :: bool
  wire :: "string list"

text \<open>
  A suspended call of \<^verbatim>\<open>send(method, params)\<close> remembers who awaits it: an operation of
  the public interface, with the number of its promise and what it does with the value
  \<^verbatim>\<open>send\<close> returns (\<^verbatim>\<open>query\<close> goes on with lines 210-223), or \<^verbatim>\<open>setup\<close>, which awaits
  \<^verbatim>\<open>this.use(...)\<close> at line 102 on behalf of the \<^verbatim>\<open>send\<close> that awaits \<^verbatim>\<open>setup\<close> at line 109.
\<close>

datatype post = Plain | QueryPost string

datatype caller = User nat post | Setup request
and request = Request string "string option" caller

fun caller_of :: "request \<Rightarrow> caller" where
  "caller_of (Request method params c) = c"

record system =
  handle :: "promise_store surreal"
  sockets :: "socket list"
  store :: promise_store
  awaiting :: "nat \<rightharpoonup> request \<times> string"
  connecting :: "nat \<rightharpoonup> request"
  settled :: "(nat \<times> (exn + jsval)) list"
  console :: "outcome list"

text \<open>
  \<open>awaiting\<close>: the \<^verbatim>\<open>send\<close> suspended at line 120 on a promise, with its \<^verbatim>\<open>sql\<close>;
  \<open>connecting\<close>: the \<^verbatim>\<open>send\<close> whose \<^verbatim>\<open>setup\<close> is suspended at line 75, by the socket it waits
  for; \<open>settled\<close>: how the operations of the public interface ended, in order;
  \<open>console\<close>: the warnings and uncaught errors of the listener.
\<close>

definition init :: "string option \<Rightarrow> string option \<Rightarrow> system" where
  "init ns db =
     \<lparr>handle = new_Surreal ns db, sockets = [], store = \<lparr>cells = [], jobs = []\<rparr>,
      awaiting = Map.empty, connecting = Map.empty, settled = [], console = []\<rparr>"

text \<open>An exception that leaves a suspended call rejects it, and so on up to the operation.\<close>

fun throw_to :: "caller \<Rightarrow> exn \<Rightarrow> system \<Rightarrow> system" where
  "throw_to (User t p) e s = s\<lparr>settled := settled s @ [(t, Inl e)]\<rparr>"
| "throw_to (Setup (Request method params c)) e s = throw_to c e s"

text \<open>
  \<^verbatim>\<open>this.ws.send(sql)\<close>: an open socket takes the frame, a closing or closed one drops
  it, a connecting one throws; with no socket in \<^verbatim>\<open>this.ws\<close> the call is a TypeError.
\<close>

definition ws_send :: "nat option \<Rightarrow> string \<Rightarrow> socket list \<Rightarrow> exn + socket list" where
  "ws_send w data socks =
     (case w of
        None \<Rightarrow> Inl TypeError
      | Some k \<Rightarrow>
          if k < length socks then
            (case readyState (socks ! k) of
               CONNECTING \<Rightarrow> Inl InvalidStateError
             | OPEN \<Rightarrow> Inr (socks[k := (socks ! k)\<lparr>wire := wire (socks ! k) @ [data]\<rparr>])
             | CLOSING \<Rightarrow> Inr socks
             | CLOSED \<Rightarrow> Inr socks)
          else Inl TypeError)"

text \<open>
  Lines 111-120 of \<^verbatim>\<open>send\<close>, from the id to the \<^verbatim>\<open>await\<close>: take an id, make the promise,
  build the text, store the entry under the id, send the text, and suspend.
\<close>

definition dispatch :: "request \<Rightarrow> system \<Rightarrow> system" where
  "dispatch r s =
     (case r of Request method params c \<Rightarrow>
        (case id_getter (handle s) of (i, h1) \<Rightarrow>
           (case withResolvers (store s) of (p, w1) \<Rightarrow>
              (let text = send_sql i method params;
                   h2 = h1\<lparr>channels := (channels h1)(dec i \<mapsto>
                          \<lparr>resolve = resolver p, reject = rejecter p, sql = text\<rparr>)\<rparr>;
                   s1 = s\<lparr>handle := h2, store := w1\<rparr>
               in case ws_send (ws h2) text (sockets s) of
                    Inl e \<Rightarrow> throw_to c e s1
                  | Inr socks \<Rightarrow>
                      s1\<lparr>sockets := socks, awaiting := (awaiting s1)(p \<mapsto> (r, text))\<rparr>))))"

text \<open>Line 71: \<^verbatim>\<open>this.ws && this.ws.readyState === this.ws.OPEN\<close>\<close>

definition is_open :: "system \<Rightarrow> bool" where
  "is_open s =
     (case ws (handle s) of
        None \<Rightarrow> False
      | Some k \<Rightarrow> k < length (sockets s) \<and> readyState (sockets s ! k) = OPEN)"

text \<open>
  \<^verbatim>\<open>createWebSocket\<close> (lines 51-68) makes a new socket and suspends \<^verbatim>\<open>setup\<close>, and with it
  the \<^verbatim>\<open>send\<close> \<open>r\<close>, until the socket opens, fails or closes.
\<close>

definition createWebSocket :: "request \<Rightarrow> system \<Rightarrow> system" where
  "createWebSocket r s =
     s\<lparr>sockets := sockets s @ [\<lparr>readyState = CONNECTING, listening = False, wire = []\<rparr>],
       connecting := (connecting s)(length (sockets s) \<mapsto> r)\<rparr>"

text \<open>
  \<^verbatim>\<open>setup\<close> up to line 75, called by the \<^verbatim>\<open>send\<close> \<open>r\<close> at line 109: with an open socket it
  returns and \<^verbatim>\<open>send\<close> goes on; otherwise it creates a socket.
\<close>

definition setup_call :: "request \<Rightarrow> system \<Rightarrow> system" where
  "setup_call r s = (if is_open s then dispatch r s else createWebSocket r s)"

definition send :: "string \<Rightarrow> string option \<Rightarrow> caller \<Rightarrow> system \<Rightarrow> system" where
  "send method params c s = setup_call (Request method params c) s"

definition use :: "string \<Rightarrow> string \<Rightarrow> caller \<Rightarrow> system \<Rightarrow> system" where
  "use ns db c s = send ''use'' (Some (use_params ns db)) c s"

text \<open>
  \<^verbatim>\<open>setup\<close> from line 75 on, once socket \<open>k\<close> has opened: store the socket, install the
  listener, and with a namespace and a database (both truthy) await \<^verbatim>\<open>this.use\<close>;
  otherwise return to the \<^verbatim>\<open>send\<close> \<open>r\<close>.
\<close>

definition setup_opened :: "nat \<Rightarrow> request \<Rightarrow> system \<Rightarrow> system" where
  "setup_opened k r s =
     (let s1 = s\<lparr>handle := (handle s)\<lparr>ws := Some k\<rparr>,
                 sockets := (sockets s)[k := (sockets s ! k)\<lparr>listening := True\<rparr>]\<rparr>
      in case (opt_ns (handle s), opt_db (handle s)) of
           (Some ns, Some db) \<Rightarrow>
             if ns \<noteq> [] \<and> db \<noteq> [] then use ns db (Setup r) s1 else dispatch r s1
         | _ \<Rightarrow> dispatch r s1)"

text \<open>
  A value returned to a suspended caller: an operation ends with it (\<^verbatim>\<open>query\<close> after
  lines 210-223); \<^verbatim>\<open>setup\<close> returns at line 104 and its \<^verbatim>\<open>send\<close> goes on at line 111.
\<close>

fun return_to :: "caller \<Rightarrow> jsval \<Rightarrow> system \<Rightarrow> system" where
  "return_to (User t Plain) v s = s\<lparr>settled := settled s @ [(t, Inr v)]\<rparr>"
| "return_to (User t (QueryPost text)) v s = s\<lparr>settled := settled s @ [(t, query_result text v)]\<rparr>"
| "return_to (Setup r) v s = dispatch r s"

text \<open>The job of a settled promise \<open>p\<close>: the \<^verbatim>\<open>send\<close> that awaits it goes on at line 120.\<close>

definition resume :: "nat \<Rightarrow> system \<Rightarrow> system" where
  "resume p s =
     (case awaiting s p of
        None \<Rightarrow> s
      | Some (r, text) \<Rightarrow>
          if p < length (cells (store s)) then
            (case cells (store s) ! p of
               None \<Rightarrow> s
             | Some res \<Rightarrow>
                 (let s1 = s\<lparr>awaiting := (awaiting s)(p := None)\<rparr> in
                  case res of
                    Inl e \<Rightarrow> throw_to (caller_of r) e s1
                  | Inr app \<Rightarrow>
                      (case send_finish text app of
                         Inl e \<Rightarrow> throw_to (caller_of r) e s1
                       | Inr v \<Rightarrow> return_to (caller_of r) v s1)))
          else s)"

definition run_jobs :: "system \<Rightarrow> system" where
  "run_jobs s = fold resume (jobs (store s)) (s\<lparr>store := (store s)\<lparr>jobs := []\<rparr>\<rparr>)"

text \<open>The operations of the public interface that the claims are about, and the tasks.\<close>

datatype operation =
    Send string "string option"
  | Use string string
  | Query string "jsval option"

datatype event =
    Call nat operation
  | Open nat
  | Error nat "(string \<times> jsval) list"
  | Close nat "(string \<times> jsval) list"
  | Message nat string
  | CloseCall

record runtime =
  JSON_parse :: "string \<Rightarrow> jsval option"
  JSON_stringify :: "jsval \<Rightarrow> string"

text \<open>Lines 205-208 of \<^verbatim>\<open>query\<close>.\<close>

definition query :: "runtime \<Rightarrow> string \<Rightarrow> jsval option \<Rightarrow> nat \<Rightarrow> system \<Rightarrow> system" where
  "query rt ql params t s =
     (let text = query_sql (JSON_stringify rt) ql params
      in send ''query'' (Some (''['' @ text @ '']'')) (User t (QueryPost text)) s)"

text \<open>
  The listeners of \<^verbatim>\<open>createWebSocket\<close>: \<^verbatim>\<open>onerror\<close> (line 57) and \<^verbatim>\<open>onclose\<close> (line 58) reject
  with the event's \<^verbatim>\<open>message\<close> or \<^verbatim>\<open>reason\<close>, until the socket opens and they are removed.
\<close>

definition connect_failed :: "nat \<Rightarrow> string \<Rightarrow> (string \<times> jsval) list \<Rightarrow> system \<Rightarrow> system" where
  "connect_failed k key ev s =
     (case connecting s k of
        None \<Rightarrow> s
      | Some r \<Rightarrow>
          throw_to (caller_of r) (SurrealError (field ev key) (DVal (JObj ev)))
            (s\<lparr>connecting := (connecting s)(k := None)\<rparr>))"

definition set_readyState :: "nat \<Rightarrow> ready_state \<Rightarrow> system \<Rightarrow> system" where
  "set_readyState k rs s = s\<lparr>sockets := (sockets s)[k := (sockets s ! k)\<lparr>readyState := rs\<rparr>]\<rparr>"

definition step :: "runtime \<Rightarrow> event \<Rightarrow> system \<Rightarrow> system" where
  "step rt ev s =
     (case ev of
        Call t (Send method params) \<Rightarrow> send method params (User t Plain) s
      | Call t (Use ns db) \<Rightarrow> use ns db (User t Plain) s
      | Call t (Query ql params) \<Rightarrow> query rt ql params t s
      | Open k \<Rightarrow>
          if k < length (sockets s) \<and> readyState (sockets s ! k) = CONNECTING then
            (let s1 = set_readyState k OPEN s in
             case connecting s k of
               None \<Rightarrow> s1
             | Some r \<Rightarrow> setup_opened k r (s1\<lparr>connecting := (connecting s)(k := None)\<rparr>))
          else s
      | Error k e \<Rightarrow>
          if k < length (sockets s) then connect_failed k ''message'' e s else s
      | Close k e \<Rightarrow>
          if k < length (sockets s) \<and> readyState (sockets s ! k) \<noteq> CLOSED then
            connect_failed k ''reason'' e (set_readyState k CLOSED s)
          else s
      | Message k data \<Rightarrow>
          if k < length (sockets s) \<and> listening (sockets s ! k) then
            (case on_message (JSON_parse rt) data (handle s) (store s) of
               (h, w, out) \<Rightarrow>
                 run_jobs (s\<lparr>handle := h, store := w,
                             console := console s @ (if out = Done then [] else [out])\<rparr>))
          else s
      | CloseCall \<Rightarrow>
          (case ws (handle s) of
             None \<Rightarrow> s
           | Some k \<Rightarrow>
               if k < length (sockets s) \<and> readyState (sockets s ! k) = OPEN
               then set_readyState k CLOSING s else s))"

definition run :: "runtime \<Rightarrow> event list \<Rightarrow> system \<Rightarrow> system" where
  "run rt evs s = fold (step rt) evs s"

section \<open>Well-formed JSON text\<close>

text \<open>
  Whether a text is JSON, as \<^verbatim>\<open>JSON.parse\<close> on the server's side decides it: the grammar of
  RFC 8259 (values, objects, arrays, numbers, strings with their escapes, white space),
  read one character at a time by a pushdown automaton. The stack holds the open
  containers; the mode says what may come next.
\<close>

datatype container = InArray | InObject

datatype mode =
    Value           \<comment> \<open>a value must start\<close>
  | ArrayStart      \<comment> \<open>after \<^verbatim>\<open>[\<close>: a value or \<^verbatim>\<open>]\<close>\<close>
  | ObjectStart     \<comment> \<open>after \<^verbatim>\<open>{\<close>: a key or \<^verbatim>\<open>}\<close>\<close>
  | Key             \<comment> \<open>after \<^verbatim>\<open>,\<close> in an object: a key\<close>
  | Colon           \<comment> \<open>after a key\<close>
  | After           \<comment> \<open>after a value\<close>
  | InString bool   \<comment> \<open>in a string; \<open>True\<close> for a key\<close>
  | Escape bool     \<comment> \<open>after a backslash\<close>
  | Hex nat bool    \<comment> \<open>in \<^verbatim>\<open>\u\<close>, so many hex digits to come\<close>
  | Minus | Zero | Digits | Point | Fraction | Exponent | ExponentSign | ExponentDigits
  | Literal string  \<comment> \<open>in \<^verbatim>\<open>true\<close>, \<^verbatim>\<open>false\<close> or \<^verbatim>\<open>null\<close>, the rest to come\<close>

definition is_ws :: "char \<Rightarrow> bool" where
  "is_ws c = (c = CHR '' '' \<or> c = CHR 0x09 \<or> c = CHR 0x0A \<or> c = CHR 0x0D)"

definition is_digit :: "char \<Rightarrow> bool" where
  "is_digit c = (c \<in> set ''0123456789'')"

definition is_hex :: "char \<Rightarrow> bool" where
  "is_hex c = (c \<in> set ''0123456789abcdefABCDEF'')"

definition is_control :: "char \<Rightarrow> bool" where
  "is_control c = ((of_char c :: nat) < 32)"

text \<open>After a value: a comma, or the end of the innermost container.\<close>

definition after_value :: "container list \<Rightarrow> char \<Rightarrow> (mode \<times> container list) option" where
  "after_value st c =
     (if is_ws c then Some (After, st)
      else if c = CHR '','' then
        (case st of
           [] \<Rightarrow> None
         | InArray # r \<Rightarrow> Some (Value, st)
         | InObject # r \<Rightarrow> Some (Key, st))
      else if c = CHR '']'' then
        (case st of InArray # r \<Rightarrow> Some (After, r) | _ \<Rightarrow> None)
      else if c = CHR ''}'' then
        (case st of InObject # r \<Rightarrow> Some (After, r) | _ \<Rightarrow> None)
      else None)"

definition value_start :: "container list \<Rightarrow> char \<Rightarrow> (mode \<times> container list) option" where
  \<open>value_start st c =
     (if c = CHR ''"'' then Some (InString False, st)
      else if c = CHR ''{'' then Some (ObjectStart, InObject # st)
      else if c = CHR ''['' then Some (ArrayStart, InArray # st)
      else if c = CHR ''-'' then Some (Minus, st)
      else if c = CHR ''0'' then Some (Zero, st)
      else if is_digit c then Some (Digits, st)
      else if c = CHR ''t'' then Some (Literal ''rue'', st)
      else if c = CHR ''f'' then Some (Literal ''alse'', st)
      else if c = CHR ''n'' then Some (Literal ''ull'', st)
      else None)\<close>

fun json_step :: "mode \<times> container list \<Rightarrow> char \<Rightarrow> (mode \<times> container list) option" where
  "json_step (Value, st) c = (if is_ws c then Some (Value, st) else value_start st c)"
| "json_step (ArrayStart, st) c =
     (if is_ws c then Some (ArrayStart, st)
      else if c = CHR '']'' then
        (case st of InArray # r \<Rightarrow> Some (After, r) | _ \<Rightarrow> None)
      else value_start st c)"
| \<open>json_step (ObjectStart, st) c =
     (if is_ws c then Some (ObjectStart, st)
      else if c = CHR ''}'' then
        (case st of InObject # r \<Rightarrow> Some (After, r) | _ \<Rightarrow> None)
      else if c = CHR ''"'' then Some (InString True, st)
      else None)\<close>
| \<open>json_step (Key, st) c =
     (if is_ws c then Some (Key, st)
      else if c = CHR ''"'' then Some (InString True, st)
      else None)\<close>
| "json_step (Colon, st) c =
     (if is_ws c then Some (Colon, st)
      else if c = CHR '':'' then Some (Value, st)
      else None)"
| "json_step (After, st) c = after_value st c"
| \<open>json_step (InString k, st) c =
     (if c = CHR ''"'' then Some (if k then Colon else After, st)
      else if c = CHR 0x5C then Some (Escape k, st)
      else if is_control c then None
      else Some (InString k, st))\<close>
| \<open>json_step (Escape k, st) c =
     (if c = CHR ''u'' then Some (Hex 4 k, st)
      else if c = CHR ''"'' \<or> c = CHR 0x5C \<or> c \<in> set ''/bfnrt'' then Some (InString k, st)
      else None)\<close>
| "json_step (Hex n k, st) c =
     (if is_hex c then Some (if n \<le> 1 then InString k else Hex (n - 1) k, st) else None)"
| "json_step (Minus, st) c =
     (if c = CHR ''0'' then Some (Zero, st)
      else if is_digit c then Some (Digits, st)
      else None)"
| "json_step (Zero, st) c =
     (if c = CHR ''.'' then Some (Point, st)
      else if c = CHR ''e'' \<or> c = CHR ''E'' then Some (Exponent, st)
      else after_value st c)"
| "json_step (Digits, st) c =
     (if is_digit c then Some (Digits, st)
      else if c = CHR ''.'' then Some (Point, st)
      else if c = CHR ''e'' \<or> c = CHR ''E'' then Some (Exponent, st)
      else after_value st c)"
| "json_step (Point, st) c = (if is_digit c then Some (Fraction, st) else None)"
| "json_step (Fraction, st) c =
     (if is_digit c then Some (Fraction, st)
      else if c = CHR ''e'' \<or> c = CHR ''E'' then Some (Exponent, st)
      else after_value st c)"
| "json_step (Exponent, st) c =
     (if c = CHR ''+'' \<or> c = CHR ''-'' then Some (ExponentSign, st)
      else if is_digit c then Some (ExponentDigits, st)
      else None)"
| "json_step (ExponentSign, st) c = (if is_digit c then Some (ExponentDigits, st) else None)"
| "json_step (ExponentDigits, st) c =
     (if is_digit c then Some (ExponentDigits, st) else after_value st c)"
| "json_step (Literal l, st) c =
     (case l of
        [] \<Rightarrow> None
      | x # r \<Rightarrow> if c = x then Some (if r = [] then After else Literal r, st) else None)"

fun json_run :: "mode \<times> container list \<Rightarrow> string \<Rightarrow> (mode \<times> container list) option" where
  "json_run q [] = Some q"
| "json_run q (c # cs) = (case json_step q c of None \<Rightarrow> None | Some q' \<Rightarrow> json_run q' cs)"

text \<open>The text is one value, white space around it allowed, with nothing left open.\<close>

definition json_wf :: "string \<Rightarrow> bool" where
  "json_wf s =
     (case json_run (Value, []) s of
        Some (m, []) \<Rightarrow> m \<in> {After, Zero, Digits, Fraction, ExponentDigits}
      | _ \<Rightarrow> False)"

text \<open>
  A text that can stand between two double quotes of a JSON string as it is: no double
  quote, no backslash, no control character.
\<close>

definition plain :: "string \<Rightarrow> bool" where
  \<open>plain s = (\<forall>c \<in> set s. c \<noteq> CHR ''"'' \<and> c \<noteq> CHR 0x5C \<and> \<not> is_control c)\<close>

section \<open>Definitions for the statements and examples\<close>

text \<open>The \<^verbatim>\<open>send\<close> that an operation of the public interface starts.\<close>

fun request_of :: "runtime \<Rightarrow> nat \<Rightarrow> operation \<Rightarrow> request" where
  "request_of rt t (Send method params) = Request method params (User t Plain)"
| "request_of rt t (Use ns db) = Request ''use'' (Some (use_params ns db)) (User t Plain)"
| "request_of rt t (Query ql params) =
     Request ''query'' (Some (''['' @ query_sql (JSON_stringify rt) ql params @ '']''))
       (User t (QueryPost (query_sql (JSON_stringify rt) ql params)))"

text \<open>An entry whose callables write what is called into a log; \<^verbatim>\<open>resolve\<close> may throw.\<close>

definition logging_channel :: "exn option \<Rightarrow> (string list) channel" where
  "logging_channel thrown =
     \<lparr>resolve = (\<lambda>v w. (w @ [''resolve''], thrown)),
      reject = (\<lambda>e w. (w @ [''reject''], None)),
      sql = ''request 7''\<rparr>"

text \<open>
  A runtime for examples, from a table of texts and their values: its \<^verbatim>\<open>JSON.parse\<close> throws
  on every other text, its \<^verbatim>\<open>JSON.stringify\<close> gives a value's text in the table.
\<close>

definition example_runtime :: "(string \<times> jsval) list \<Rightarrow> runtime" where
  "example_runtime frames =
     \<lparr>JSON_parse = map_of frames,
      JSON_stringify = (\<lambda>v. case find (\<lambda>(t, v'). v' = v) frames of
                               Some (t, v') \<Rightarrow> t | None \<Rightarrow> ''null'')\<rparr>"

text \<open>
  The session-scoping frame: a request of method \<^verbatim>\<open>use\<close> with the namespace and the
  database, whatever its id. A state is scoped when every wire that has carried a
  frame carried such a frame first.
\<close>

definition use_frame :: "string \<Rightarrow> string \<Rightarrow> string \<Rightarrow> bool" where
  "use_frame ns db text = (\<exists>i. text = send_sql i ''use'' (Some (use_params ns db)))"

definition scoped :: "string \<Rightarrow> string \<Rightarrow> system \<Rightarrow> bool" where
  "scoped ns db s =
     (\<forall>k < length (sockets s).
        wire (sockets s ! k) \<noteq> [] \<longrightarrow> use_frame ns db (hd (wire (sockets s ! k))))"

text \<open>
  What holds between tasks on a handle made with a namespace and a database: the
  options stay, every wire is scoped, and the socket in \<^verbatim>\<open>this.ws\<close> has carried a frame.
\<close>

definition session_inv :: "string \<Rightarrow> string \<Rightarrow> system \<Rightarrow> bool" where
  "session_inv ns db s =
     (ns \<noteq> [] \<and> db \<noteq> []
      \<and> opt_ns (handle s) = Some ns \<and> opt_db (handle s) = Some db
      \<and> scoped ns db s
      \<and> (\<forall>k. ws (handle s) = Some k \<longrightarrow>
             k < length (sockets s) \<and> wire (sockets s ! k) \<noteq> []))"

text \<open>
  The handle is connected by socket \<open>k\<close>: \<^verbatim>\<open>this.ws\<close> is that socket, open and with the
  listener on it, and no promise job is left to run.
\<close>

definition connected :: "nat \<Rightarrow> system \<Rightarrow> bool" where
  "connected k s =
     (ws (handle s) = Some k \<and> k < length (sockets s)
      \<and> readyState (sockets s ! k) = OPEN \<and> listening (sockets s ! k)
      \<and> jobs (store s) = [])"

text \<open>
  The \<^verbatim>\<open>send\<close> \<open>r\<close> is outstanding with id \<open>i\<close> on promise \<open>p\<close>: its entry is in the table
  under the id's key with the promise's two functions, it awaits the promise, and the
  promise is not settled.
\<close>

definition registered :: "system \<Rightarrow> nat \<Rightarrow> nat \<Rightarrow> request \<Rightarrow> bool" where
  "registered s i p r =
     (\<exists>text. channels (handle s) (dec i) =
               Some \<lparr>resolve = resolver p, reject = rejecter p, sql = text\<rparr>
           \<and> awaiting s p = Some (r, text)
           \<and> p < length (cells (store s)) \<and> cells (store s) ! p = None)"

text \<open>
  Every entry of the table holds the two functions of a promise that exists, as the
  entries stored at line 117 do.
\<close>

definition promise_table :: "system \<Rightarrow> bool" where
  "promise_table s =
     (\<forall>key c. channels (handle s) key = Some c \<longrightarrow>
        (\<exists>q < length (cells (store s)). resolve c = resolver q \<and> reject c = rejecter q))"

text \<open>
  Every \<^verbatim>\<open>send\<close> that awaits a promise was called by an operation of the public
  interface: no \<^verbatim>\<open>setup\<close> is waiting at line 102 for its \<^verbatim>\<open>use\<close>.
\<close>

definition users_only :: "system \<Rightarrow> bool" where
  "users_only s =
     (\<forall>p r x. awaiting s p = Some (r, x) \<longrightarrow> (\<exists>t po. caller_of r = User t po))"





text \<open>
  A handle made without a namespace or without a database, where every \<^verbatim>\<open>send\<close> that
  waits, for a promise or for a socket, was called by an operation: \<^verbatim>\<open>setup\<close> never
  calls \<^verbatim>\<open>use\<close> on such a handle.
\<close>

definition unscoped :: "system \<Rightarrow> bool" where
  "unscoped s =
     ((opt_ns (handle s) = None \<or> opt_db (handle s) = None)
      \<and> users_only s
      \<and> (\<forall>k r. connecting s k = Some r \<longrightarrow> (\<exists>t po. caller_of r = User t po)))"






lemmas event_loop_defs =
  step_def run_def init_def new_Surreal_def send_def use_def query_def setup_call_def
  is_open_def createWebSocket_def setup_opened_def dispatch_def id_getter_def
  withResolvers_def ws_send_def set_readyState_def connect_failed_def resume_def
  run_jobs_def on_message_def channel_at_def settle_def resolver_def rejecter_def
  example_runtime_def Let_def

section \<open>Request ids: proofs\<close>

lemma id_getter_fst: "state h \<le> 1001 \<Longrightarrow> fst (id_getter h) = state h mod 1001"
proof (cases "state h = 1001")
  case True
  then show ?thesis by (simp add: id_getter_def)
next
  case False
  assume "state h \<le> 1001"
  with False have lt: "state h < 1001" by simp
  then have m: "state h mod 1001 = state h" by (rule mod_less)
  from lt have "\<not> state h > 1000" by simp
  then show ?thesis unfolding m by (simp add: id_getter_def)
qed

lemma id_getter_state:
  "state h \<le> 1001 \<Longrightarrow> state (snd (id_getter h)) = state h mod 1001 + 1"
proof (cases "state h = 1001")
  case True
  then show ?thesis by (simp add: id_getter_def)
next
  case False
  assume "state h \<le> 1001"
  with False have lt: "state h < 1001" by simp
  then have m: "state h mod 1001 = state h" by (rule mod_less)
  from lt have "\<not> state h > 1000" by simp
  then show ?thesis unfolding m by (simp add: id_getter_def)
qed

lemma mod_shift: "Suc (a mod m + x) mod m = Suc (a + x) mod m"
  by (metis mod_Suc_eq mod_add_left_eq)

lemma allocate_ids:
  "state h \<le> 1001 \<Longrightarrow>
   fst (allocate n h) = map (\<lambda>k. (state h + k) mod 1001) [0..<n]"
proof (induction n arbitrary: h)
  case 0
  then show ?case by simp
next
  case (Suc n)
  obtain i h1 where g: "id_getter h = (i, h1)" by (cases "id_getter h")
  have i: "i = state h mod 1001"
    using id_getter_fst [OF Suc.prems] g by simp
  have s1: "state h1 = state h mod 1001 + 1"
    using id_getter_state [OF Suc.prems] g by simp
  have "state h mod 1001 < 1001" by (rule mod_less_divisor) simp
  with s1 have le: "state h1 \<le> 1001" by simp
  have rest: "fst (allocate n h1) = map (\<lambda>k. (state h1 + k) mod 1001) [0..<n]"
    by (rule Suc.IH [OF le])
  have shift: "map (\<lambda>k. (state h1 + k) mod 1001) [0..<n]
      = map (\<lambda>k. (state h + k) mod 1001) [Suc 0..<Suc n]"
    unfolding map_Suc_upt [symmetric] map_map o_def s1
    by (rule map_cong [OF refl])
       (simp only: add_Suc_right add_Suc Suc_eq_plus1 [symmetric] mod_shift)
  have "fst (allocate (Suc n) h) = i # fst (allocate n h1)"
    using g by (simp split: prod.splits)
  also have "\<dots> = (state h + 0) mod 1001 # map (\<lambda>k. (state h + k) mod 1001) [Suc 0..<Suc n]"
    using i rest shift by (simp only: add_0_right)
  also have "\<dots> = map (\<lambda>k. (state h + k) mod 1001) (0 # [Suc 0..<Suc n])"
    by (simp only: list.map)
  also have "0 # [Suc 0..<Suc n] = [0..<Suc n]"
    by (simp add: upt_conv_Cons)
  finally show ?case .
qed

lemma allocate_nth:
  "state h \<le> 1001 \<Longrightarrow> k < n \<Longrightarrow> fst (allocate n h) ! k = (state h + k) mod 1001"
  by (simp add: allocate_ids)

text \<open>
  C2 (as amended). On a new handle the first \<open>n\<close> reads of the id getter return
  \<open>0, 1, \<dots>\<close> modulo 1001: the counter is reset only once it is greater than 1000, so
  the id 1000 is handed out too; the \<open>(k+1)\<close>-th allocation returns \<open>k mod 1001\<close>.
\<close>

theorem id_kth_allocation:
  "fst (allocate n (new_Surreal ns db)) = map (\<lambda>k. k mod 1001) [0..<n]"
  using allocate_ids [of "new_Surreal ns db" n] by (simp add: new_Surreal_def)

theorem id_kth_allocation_witness:
  "fst (allocate (Suc (Suc 0)) (new_Surreal None None :: unit surreal)) = [0, 1]"
  using id_kth_allocation [of "Suc (Suc 0)" None None, where ?'a = unit]
  by (simp del: allocate.simps add: upt_conv_Cons)

text \<open>
  The claim as the spec words it fails: the 1001st allocation returns 1000, not
  \<open>(1001 - 1) mod 1000 = 0\<close>; the counter first comes back to 0 at the 1002nd.
\<close>

theorem id_1001st_allocation_counterexample:
  "fst (allocate 1002 (new_Surreal None None :: unit surreal)) ! (1001 - 1) = 1000
   \<and> fst (allocate 1002 (new_Surreal None None :: unit surreal)) ! (1001 - 1)
       \<noteq> (1001 - 1) mod 1000
   \<and> fst (allocate 1002 (new_Surreal None None :: unit surreal)) ! (1002 - 1) = 0"
proof -
  have s: "state (new_Surreal None None :: unit surreal) \<le> 1001"
    by (simp add: new_Surreal_def)
  have z: "state (new_Surreal None None :: unit surreal) = 0"
    by (simp add: new_Surreal_def)
  have a: "fst (allocate 1002 (new_Surreal None None :: unit surreal)) ! 1000 = 1000"
    using allocate_nth [OF s, of 1000 1002] by (simp add: z)
  have b: "fst (allocate 1002 (new_Surreal None None :: unit surreal)) ! 1001 = 0"
    using allocate_nth [OF s, of 1001 1002] by (simp add: z)
  show ?thesis using a b by simp
qed

section \<open>The end of send, and query: proofs\<close>

lemma field_update_other: "k \<noteq> k' \<Longrightarrow> field (AList.update k v fs) k' = field fs k'"
  by (simp add: field_def update_conv')

lemma field_update_same: "field (AList.update k v fs) k = v"
  by (simp add: field_def update_conv')

lemma send_finish_error_object:
  "field fs ''error'' = JObj efs \<Longrightarrow>
   send_finish text (JObj fs) =
     Inl (SurrealError (field efs ''message'') (DVal (JObj (AList.update ''sql'' (JStr text) efs))))"
  by (simp add: send_finish_def field_update_other)

lemma send_finish_no_error:
  "field fs ''error'' = JUndefined \<Longrightarrow> send_finish text (JObj fs) = Inr (field fs ''result'')"
  by (simp add: send_finish_def)

text \<open>
  C7. When \<^verbatim>\<open>send\<close> completes with a frame whose \<^verbatim>\<open>error\<close> member is an object, it throws a
  \<^verbatim>\<open>SurrealError\<close> with the error's \<^verbatim>\<open>message\<close> and, as detail, the error object with the
  request envelope that was sent stored under \<^verbatim>\<open>sql\<close>; when the frame has no \<^verbatim>\<open>error\<close>
  member, it returns the frame's \<^verbatim>\<open>result\<close> member as it is.
\<close>

theorem send_error_or_result:
  "(map_of fs ''error'' = Some (JObj efs) \<longrightarrow>
      send_finish (send_sql i method params) (JObj fs) =
        Inl (SurrealError (field efs ''message'')
               (DVal (JObj (AList.update ''sql'' (JStr (send_sql i method params)) efs)))))
   \<and> (map_of fs ''error'' = None \<longrightarrow>
      send_finish (send_sql i method params) (JObj fs) = Inr (field fs ''result''))"
  by (simp add: send_finish_error_object send_finish_no_error field_def)

theorem send_error_or_result_witness:
  \<open>send_finish (send_sql 2 ''info'' None)
      (JObj [(''id'', JNum 2), (''error'', JObj [(''code'', JNum (- 32000)), (''message'', JStr ''boom'')])])
    = Inl (SurrealError (JStr ''boom'')
        (DVal (JObj [(''code'', JNum (- 32000)), (''message'', JStr ''boom''),
                     (''sql'', JStr ''{"id":2,"method":"info"}'')])))
   \<and> send_finish (send_sql 2 ''info'' None) (JObj [(''id'', JNum 2), (''result'', JStr ''ok'')])
    = Inr (JStr ''ok'')\<close>
  using send_error_or_result
          [of "[(''id'', JNum 2), (''error'', JObj [(''code'', JNum (- 32000)), (''message'', JStr ''boom'')])]"
              "[(''code'', JNum (- 32000)), (''message'', JStr ''boom'')]" 2 "''info''" None]
        send_error_or_result
          [of "[(''id'', JNum 2), (''result'', JStr ''ok'')]" "[]" 2 "''info''" None]
  by (simp add: field_def send_sql_def dec.simps digit_char_def)

lemma query_result_array: "query_result text (JArr es) = Inl TypeError"
  by (simp add: query_result_def)

lemma query_each_object:
  "query_each (JObj fs) errs =
     Inr (if field fs ''status'' = JStr ''ERR''
          then (JUndefined, errs @ [field fs ''result''])
          else (field fs ''result'', errs))"
  by (simp add: query_each_def)

lemma query_map_objects:
  "query_map (map JObj fss) errs =
     Inr (map (\<lambda>fs. if field fs ''status'' = JStr ''ERR'' then JUndefined else field fs ''result'') fss,
          errs @ map (\<lambda>fs. field fs ''result'') (filter (\<lambda>fs. field fs ''status'' = JStr ''ERR'') fss))"
  by (induction fss arbitrary: errs) (simp_all add: query_each_object)

text \<open>
  What lines 210-223 do with a value whose \<^verbatim>\<open>result\<close> property is the array of outcomes:
  with no outcome of status \<^verbatim>\<open>ERR\<close>, the results in order.
\<close>

lemma query_result_nested_ok:
  assumes "field rs ''result'' = JArr (map JObj fss)"
    and "\<forall>fs \<in> set fss. field fs ''status'' \<noteq> JStr ''ERR''"
  shows "query_result text (JObj rs) = Inr (JArr (map (\<lambda>fs. field fs ''result'') fss))"
proof -
  have f: "filter (\<lambda>fs. field fs ''status'' = JStr ''ERR'') fss = []"
    using assms(2) by (simp add: filter_empty_conv)
  have m: "map (\<lambda>fs. if field fs ''status'' = JStr ''ERR'' then JUndefined else field fs ''result'') fss
      = map (\<lambda>fs. field fs ''result'') fss"
    using assms(2) by (intro map_cong) simp_all
  show ?thesis
    by (simp add: query_result_def assms(1) query_map_objects f m)
qed

text \<open>With an outcome of status \<^verbatim>\<open>ERR\<close>: one error, the failed outcomes' results joined.\<close>

lemma query_result_nested_err:
  assumes "field rs ''result'' = JArr (map JObj fss)"
    and "\<exists>fs \<in> set fss. field fs ''status'' = JStr ''ERR''"
  shows "query_result text (JObj rs) =
     Inl (SurrealError
            (JStr (array_join '';''
               (map (\<lambda>fs. field fs ''result'') (filter (\<lambda>fs. field fs ''status'' = JStr ''ERR'') fss))))
            (DVal (JObj [(''sql'', JStr text)])))"
proof -
  have f: "filter (\<lambda>fs. field fs ''status'' = JStr ''ERR'') fss \<noteq> []"
    using assms(2) by (simp add: filter_empty_conv)
  show ?thesis
    by (simp add: query_result_def assms(1) query_map_objects f)
qed

text \<open>
  C3. The response frame of \<^verbatim>\<open>query("SELECT 1")\<close> with its one statement succeeding:
  \<^verbatim>\<open>send\<close> returns the frame's \<^verbatim>\<open>result\<close>, the array of outcomes, and \<^verbatim>\<open>query\<close> then reads
  \<^verbatim>\<open>response.result\<close> of that array, which is \<^verbatim>\<open>undefined\<close>: it throws a TypeError instead
  of returning the one result.
\<close>

theorem query_select_1_throws:
  "send_finish text
     (JObj [(''id'', JNum 0),
            (''result'', JArr [JObj [(''status'', JStr ''OK''), (''result'', JNum 1)]])])
     = Inr (JArr [JObj [(''status'', JStr ''OK''), (''result'', JNum 1)]])
   \<and> query_result qtext (JArr [JObj [(''status'', JStr ''OK''), (''result'', JNum 1)]])
     = Inl TypeError"
  by (simp add: send_finish_def field_def query_result_def)

text \<open>
  C4. The same on a frame with a failed statement: a TypeError, not the aggregated
  \<^verbatim>\<open>SurrealError\<close>.
\<close>

theorem query_failed_statement_throws:
  "send_finish text
     (JObj [(''id'', JNum 0),
            (''result'', JArr [JObj [(''status'', JStr ''OK''), (''result'', JNum 1)],
                               JObj [(''status'', JStr ''ERR''), (''result'', JStr ''bogus'')]])])
     = Inr (JArr [JObj [(''status'', JStr ''OK''), (''result'', JNum 1)],
                  JObj [(''status'', JStr ''ERR''), (''result'', JStr ''bogus'')]])
   \<and> query_result qtext
       (JArr [JObj [(''status'', JStr ''OK''), (''result'', JNum 1)],
              JObj [(''status'', JStr ''ERR''), (''result'', JStr ''bogus'')]])
     = Inl TypeError
   \<and> query_result qtext
       (JArr [JObj [(''status'', JStr ''OK''), (''result'', JNum 1)],
              JObj [(''status'', JStr ''ERR''), (''result'', JStr ''bogus'')]])
     \<noteq> Inl (SurrealError (JStr ''bogus'') (DVal (JObj [(''sql'', JStr qtext)])))"
  by (simp add: send_finish_def field_def query_result_def)

section \<open>The message listener: proofs\<close>

lemma on_message_own:
  assumes "parse data = Some app" and "get_prop app ''id'' = Inr i"
    and "channels h (to_string i) = Some c"
  shows "on_message parse data h w =
     (let h' = h\<lparr>channels := (channels h)(to_string i := None)\<rparr> in
      case resolve c app w of
        (w1, None) \<Rightarrow> (h', w1, Done)
      | (w1, Some err) \<Rightarrow>
          (case reject c err w1 of
             (w2, None) \<Rightarrow> (h', w2, Done)
           | (w2, Some err2) \<Rightarrow> (h', w2, Thrown (parse_failure data err2))))"
  using assms by (simp add: on_message_def channel_at_def)

text \<open>The callables that \<^verbatim>\<open>send\<close> stores in an entry, a promise's two functions, never throw.\<close>

lemma promise_functions_return:
  "snd (resolver p v w) = None" "snd (rejecter p e w) = None"
  by (simp_all add: resolver_def rejecter_def)

text \<open>
  C6. For a frame whose id has an entry, the listener removes the entry whatever the
  callables do; it calls \<^verbatim>\<open>resolve\<close>, and that alone when \<^verbatim>\<open>resolve\<close> returns; when
  \<^verbatim>\<open>resolve\<close> throws, what it threw goes to \<^verbatim>\<open>reject\<close>. After the run the id has no entry
  and every other entry is as before.
\<close>

theorem listener_calls_back_and_removes:
  assumes "parse data = Some app" and "get_prop app ''id'' = Inr i"
    and "channels h (to_string i) = Some c"
  shows "fst (on_message parse data h w) = h\<lparr>channels := (channels h)(to_string i := None)\<rparr>
    \<and> (snd (resolve c app w) = None \<longrightarrow>
         on_message parse data h w =
           (h\<lparr>channels := (channels h)(to_string i := None)\<rparr>, fst (resolve c app w), Done))
    \<and> (\<forall>err. snd (resolve c app w) = Some err \<longrightarrow>
         fst (snd (on_message parse data h w)) = fst (reject c err (fst (resolve c app w))))"
proof -
  note eq = on_message_own [of parse data app i h c w, OF assms]
  show ?thesis
    unfolding eq by (auto simp: Let_def split: prod.splits option.splits)
qed

theorem listener_calls_back_and_removes_witness:
  "on_message (\<lambda>s. Some (JObj [(''id'', JNum 7), (''result'', JNull)])) ''frame''
      ((new_Surreal None None)\<lparr>channels := [''7'' \<mapsto> logging_channel None]\<rparr>) []
    = (new_Surreal None None, [''resolve''], Done)
   \<and> fst (snd (on_message (\<lambda>s. Some (JObj [(''id'', JNum 7), (''result'', JNull)])) ''frame''
      ((new_Surreal None None)\<lparr>channels := [''7'' \<mapsto> logging_channel (Some TypeError)]\<rparr>) []))
    = [''resolve'', ''reject'']
   \<and> channels (fst (on_message (\<lambda>s. Some (JObj [(''id'', JNum 7), (''result'', JNull)])) ''frame''
      ((new_Surreal None None)\<lparr>channels := [''7'' \<mapsto> logging_channel (Some TypeError)]\<rparr>) [])) ''7''
    = None"
proof -
  have k: "int_dec 7 = ''7''"
    by (simp add: int_dec_def dec.simps digit_char_def)
  let ?parse = "\<lambda>s::string. Some (JObj [(''id'', JNum 7), (''result'', JNull)])"
  let ?h = "\<lambda>t. (new_Surreal None None)\<lparr>channels := [''7'' \<mapsto> logging_channel t]\<rparr>"
  have a: "?parse ''frame'' = Some (JObj [(''id'', JNum 7), (''result'', JNull)])" by simp
  have b: "get_prop (JObj [(''id'', JNum 7), (''result'', JNull)]) ''id'' = Inr (JNum 7)"
    by (simp add: field_def)
  have c: "channels (?h t) (to_string (JNum 7)) = Some (logging_channel t)" for t
    by (simp add: k)
  show ?thesis
    using listener_calls_back_and_removes
            [of ?parse "''frame''" "JObj [(''id'', JNum 7), (''result'', JNull)]" "JNum 7"
                "?h None" "logging_channel None" "[]", OF a b c]
          listener_calls_back_and_removes
            [of ?parse "''frame''" "JObj [(''id'', JNum 7), (''result'', JNull)]" "JNum 7"
                "?h (Some TypeError)" "logging_channel (Some TypeError)" "[]", OF a b c]
    by (simp add: k logging_channel_def new_Surreal_def)
qed

section \<open>The event loop: basic facts\<close>

lemma step_Call: "step rt (Call t op) s = setup_call (request_of rt t op) s"
  by (cases op) (simp_all add: step_def send_def use_def query_def Let_def)

lemma step_Message:
  "step rt (Message k data) s =
     (if k < length (sockets s) \<and> listening (sockets s ! k) then
        (case on_message (JSON_parse rt) data (handle s) (store s) of
           (h, w, out) \<Rightarrow>
             run_jobs (s\<lparr>handle := h, store := w,
                         console := console s @ (if out = Done then [] else [out])\<rparr>))
      else s)"
  by (simp add: step_def)

lemma step_Open:
  "step rt (Open k) s =
     (if k < length (sockets s) \<and> readyState (sockets s ! k) = CONNECTING then
        (let s1 = set_readyState k OPEN s in
         case connecting s k of
           None \<Rightarrow> s1
         | Some r \<Rightarrow> setup_opened k r (s1\<lparr>connecting := (connecting s)(k := None)\<rparr>))
      else s)"
  by (simp add: step_def)

lemma run_Nil: "run rt [] s = s"
  by (simp add: run_def)

lemma run_Cons: "run rt (e # es) s = run rt es (step rt e s)"
  by (simp add: run_def)

lemma run_append: "run rt (es @ fs) s = run rt fs (run rt es s)"
  by (simp add: run_def)

lemma run_jobs_none: "jobs (store s) = [] \<Longrightarrow> run_jobs s = s"
  by (simp add: run_jobs_def)

text \<open>
  C8. A frame whose text does not parse: the listener throws line 97's error, which is
  reported, and nothing else changes: no entry is called back or removed, no promise
  is settled, no operation ends, and every socket is as it was.
\<close>

theorem malformed_frame_changes_nothing:
  assumes "JSON_parse rt data = None"
    and "k < length (sockets s)" and "listening (sockets s ! k)"
    and "jobs (store s) = []"
  shows "step rt (Message k data) s =
           s\<lparr>console := console s @ [Thrown (parse_failure data SyntaxError)]\<rparr>"
  using assms by (simp add: step_Message on_message_def run_jobs_none)

lemma first_call_opened:
  "sockets (run (example_runtime []) [Call 0 (Send ''info'' None), Open 0] (init None None))
   = [\<lparr>readyState = OPEN, listening = True, wire = [send_sql 0 ''info'' None]\<rparr>]"
  by (simp add: event_loop_defs)

theorem malformed_frame_changes_nothing_witness:
  "step (example_runtime []) (Message 0 ''}{'')
     (run (example_runtime []) [Call 0 (Send ''info'' None), Open 0] (init None None))
   = (run (example_runtime []) [Call 0 (Send ''info'' None), Open 0] (init None None))
       \<lparr>console := [Thrown (parse_failure ''}{'' SyntaxError)]\<rparr>"
proof -
  let ?s = "run (example_runtime []) [Call 0 (Send ''info'' None), Open 0] (init None None)"
  have a: "JSON_parse (example_runtime []) ''}{'' = None"
    by (simp add: example_runtime_def)
  have b: "0 < length (sockets ?s)" by (simp add: first_call_opened)
  have c: "listening (sockets ?s ! 0)" by (simp add: first_call_opened)
  have d: "jobs (store ?s) = []" by (simp add: event_loop_defs)
  have e: "console ?s = []" by (simp add: event_loop_defs)
  show ?thesis
    using malformed_frame_changes_nothing [OF a b c d] by (simp only: e append_Nil)
qed

section \<open>Connection attempts\<close>

lemma throw_to_fields:
  "handle (throw_to c e s) = handle s"
  "sockets (throw_to c e s) = sockets s"
  "store (throw_to c e s) = store s"
  "awaiting (throw_to c e s) = awaiting s"
  "connecting (throw_to c e s) = connecting s"
  "console (throw_to c e s) = console s"
  by (induction c e s rule: throw_to.induct) simp_all

lemma ws_send_length: "ws_send w data socks = Inr socks' \<Longrightarrow> length socks' = length socks"
  by (auto simp: ws_send_def split: option.splits if_splits ready_state.splits)

lemma dispatch_sockets_length: "length (sockets (dispatch r s)) = length (sockets s)"
  by (cases r)
     (auto simp: dispatch_def Let_def throw_to_fields dest: ws_send_length
           split: prod.splits sum.splits)

lemma dispatch_ws: "ws (handle (dispatch r s)) = ws (handle s)"
  by (cases r)
     (auto simp: dispatch_def Let_def throw_to_fields id_getter_def split: prod.splits sum.splits)

lemma setup_call_closed: "\<not> is_open s \<Longrightarrow> setup_call r s = createWebSocket r s"
  by (simp add: setup_call_def)

lemma setup_call_open: "is_open s \<Longrightarrow> setup_call r s = dispatch r s"
  by (simp add: setup_call_def)

lemma calls_without_socket:
  "ws (handle s) = None \<Longrightarrow>
   ws (handle (run rt (map (\<lambda>t. Call t (ops t)) ts) s)) = None
   \<and> length (sockets (run rt (map (\<lambda>t. Call t (ops t)) ts) s)) = length (sockets s) + length ts"
proof (induction ts arbitrary: s)
  case Nil
  then show ?case by (simp add: run_Nil)
next
  case (Cons t ts)
  have closed: "\<not> is_open s" using Cons.prems by (simp add: is_open_def)
  let ?s1 = "step rt (Call t (ops t)) s"
  have s1: "?s1 = createWebSocket (request_of rt t (ops t)) s"
    by (simp add: step_Call setup_call_closed [OF closed])
  have w1: "ws (handle ?s1) = None"
    using Cons.prems by (simp add: s1 createWebSocket_def)
  have l1: "length (sockets ?s1) = Suc (length (sockets s))"
    by (simp add: s1 createWebSocket_def)
  show ?case
    using Cons.IH [OF w1] by (simp add: run_Cons l1)
qed

text \<open>
  C5 (as amended). An operation started while \<^verbatim>\<open>this.ws\<close> holds no open socket creates a
  socket of its own - also while an earlier one is still connecting - and one started
  while the socket is open creates none: \<open>n\<close> operations started on a new handle before
  any socket has opened create \<open>n\<close> sockets.
\<close>

theorem every_early_call_opens_a_socket:
  "(\<not> is_open s \<longrightarrow>
      sockets (step rt (Call t op) s) =
        sockets s @ [\<lparr>readyState = CONNECTING, listening = False, wire = []\<rparr>])
   \<and> (is_open s \<longrightarrow> length (sockets (step rt (Call t op) s)) = length (sockets s))
   \<and> length (sockets (run rt (map (\<lambda>t. Call t (ops t)) [0..<n]) (init ns db))) = n"
proof -
  have "ws (handle (init ns db)) = None" by (simp add: init_def new_Surreal_def)
  from calls_without_socket [OF this, of rt ops "[0..<n]"]
  have "length (sockets (run rt (map (\<lambda>t. Call t (ops t)) [0..<n]) (init ns db))) = n"
    by (simp add: init_def)
  then show ?thesis
    by (simp add: step_Call setup_call_closed setup_call_open createWebSocket_def
        dispatch_sockets_length)
qed

theorem every_early_call_opens_a_socket_witness:
  "sockets (step (example_runtime []) (Call 1 (Send ''info'' None)) (init None None))
     = [\<lparr>readyState = CONNECTING, listening = False, wire = []\<rparr>]
   \<and> length (sockets (step (example_runtime []) (Call 1 (Send ''info'' None))
        (run (example_runtime []) [Call 0 (Send ''info'' None), Open 0] (init None None)))) = 1
   \<and> length (sockets (run (example_runtime []) (map (\<lambda>t. Call t (Send ''info'' None)) [0..<3])
        (init None None))) = 3"
proof -
  let ?s = "run (example_runtime []) [Call 0 (Send ''info'' None), Open 0] (init None None)"
  have a: "\<not> is_open (init None None)"
    by (simp add: is_open_def init_def new_Surreal_def)
  have b: "is_open ?s"
    by (simp add: event_loop_defs)
  have c: "length (sockets ?s) = 1"
    by (simp add: event_loop_defs)
  have d: "sockets (init None None) = []"
    by (simp add: init_def)
  show ?thesis
    using every_early_call_opens_a_socket
            [of "init None None" "example_runtime []" 1 "Send ''info'' None"
                "\<lambda>t. Send ''info'' None" 3 None None]
          every_early_call_opens_a_socket
            [of ?s "example_runtime []" 1 "Send ''info'' None"
                "\<lambda>t. Send ''info'' None" 3 None None]
    by (simp only: a b c d simp_thms append_Nil)
qed

text \<open>
  The claim as the spec words it fails: two operations started one after the other on
  a new handle, before any socket has opened, create two sockets.
\<close>

theorem two_early_calls_counterexample:
  "length (sockets (run (example_runtime [])
       [Call 0 (Send ''info'' None), Call 1 (Send ''info'' None)] (init None None))) = 2
   \<and> map readyState (sockets (run (example_runtime [])
       [Call 0 (Send ''info'' None), Call 1 (Send ''info'' None)] (init None None)))
     = [CONNECTING, CONNECTING]"
  by (simp add: event_loop_defs)

section \<open>Session scoping\<close>

lemma same_wires:
  assumes "map wire xs = map wire ys"
  shows "length xs = length ys" and "k < length ys \<Longrightarrow> wire (xs ! k) = wire (ys ! k)"
proof -
  from assms have "length (map wire xs) = length (map wire ys)" by (rule arg_cong)
  then show l: "length xs = length ys" by simp
  show "wire (xs ! k) = wire (ys ! k)" if "k < length ys"
  proof -
    have "wire (xs ! k) = map wire xs ! k" using that l by simp
    also have "\<dots> = map wire ys ! k" by (simp only: assms)
    also have "\<dots> = wire (ys ! k)" using that by simp
    finally show ?thesis .
  qed
qed

lemma scoped_cong:
  assumes "map wire (sockets s') = map wire (sockets s)"
  shows "scoped ns db s' = scoped ns db s"
proof -
  have l: "length (sockets s') = length (sockets s)" by (rule same_wires(1) [OF assms])
  have w: "\<And>k. k < length (sockets s) \<Longrightarrow> wire (sockets s' ! k) = wire (sockets s ! k)"
    by (rule same_wires(2) [OF assms])
  show ?thesis unfolding scoped_def l using w by auto
qed

lemma session_inv_cong:
  assumes "opt_ns (handle s') = opt_ns (handle s)" and "opt_db (handle s') = opt_db (handle s)"
    and "ws (handle s') = ws (handle s)" and "map wire (sockets s') = map wire (sockets s)"
  shows "session_inv ns db s' = session_inv ns db s"
proof -
  have l: "length (sockets s') = length (sockets s)" by (rule same_wires(1) [OF assms(4)])
  have w: "\<And>k. k < length (sockets s) \<Longrightarrow> wire (sockets s' ! k) = wire (sockets s ! k)"
    by (rule same_wires(2) [OF assms(4)])
  have "(\<forall>k. ws (handle s) = Some k \<longrightarrow> k < length (sockets s) \<and> wire (sockets s' ! k) \<noteq> [])
      = (\<forall>k. ws (handle s) = Some k \<longrightarrow> k < length (sockets s) \<and> wire (sockets s ! k) \<noteq> [])"
    using w by auto
  then show ?thesis
    unfolding session_inv_def scoped_cong [OF assms(4)] assms(1-3) l by simp
qed

lemma session_inv_throw_to: "session_inv ns db (throw_to c e s) = session_inv ns db s"
  by (rule session_inv_cong) (simp_all add: throw_to_fields)

lemma map_wire_update:
  "map wire (socks[k := (socks ! k)\<lparr>readyState := rs\<rparr>]) = map wire socks"
  "map wire (socks[k := (socks ! k)\<lparr>listening := b\<rparr>]) = map wire socks"
proof -
  have u: "(map wire socks)[k := wire (socks ! k)] = map wire socks"
  proof (cases "k < length socks")
    case True
    then have "k < length (map wire socks)" by simp
    then have "((map wire socks)[k := wire (socks ! k)] = map wire socks)
        = (map wire socks ! k = wire (socks ! k))"
      by (rule list_update_same_conv)
    with True show ?thesis by simp
  next
    case False
    then have "length (map wire socks) \<le> k" by simp
    then show ?thesis by (rule list_update_beyond)
  qed
  show "map wire (socks[k := (socks ! k)\<lparr>readyState := rs\<rparr>]) = map wire socks"
    by (simp add: map_update u)
  show "map wire (socks[k := (socks ! k)\<lparr>listening := b\<rparr>]) = map wire socks"
    by (simp add: map_update u)
qed

lemma id_getter_fields:
  "opt_ns (snd (id_getter h)) = opt_ns h"
  "opt_db (snd (id_getter h)) = opt_db h"
  "ws (snd (id_getter h)) = ws h"
  "channels (snd (id_getter h)) = channels h"
  by (simp_all add: id_getter_def Let_def)

lemma dispatch_eq:
  "dispatch (Request method params c) s =
     (let i = fst (id_getter (handle s));
          p = length (cells (store s));
          text = send_sql i method params;
          h2 = (snd (id_getter (handle s)))\<lparr>channels := (channels (handle s))(dec i \<mapsto>
                 \<lparr>resolve = resolver p, reject = rejecter p, sql = text\<rparr>)\<rparr>;
          s1 = s\<lparr>handle := h2, store := (store s)\<lparr>cells := cells (store s) @ [None]\<rparr>\<rparr>
      in case ws_send (ws (handle s)) text (sockets s) of
           Inl e \<Rightarrow> throw_to c e s1
         | Inr socks \<Rightarrow>
             s1\<lparr>sockets := socks,
                awaiting := (awaiting s)(p \<mapsto> (Request method params c, text))\<rparr>)"
  by (cases "ws_send (ws (handle s)) (send_sql (fst (id_getter (handle s))) method params)
              (sockets s)")
     (simp_all add: dispatch_def withResolvers_def Let_def split_beta id_getter_fields)

lemma ws_send_cases:
  "ws_send w text socks = Inr socks' \<Longrightarrow>
   socks' = socks
   \<or> (\<exists>k. w = Some k \<and> k < length socks \<and> readyState (socks ! k) = OPEN
          \<and> socks' = socks[k := (socks ! k)\<lparr>wire := wire (socks ! k) @ [text]\<rparr>])"
  by (auto simp: ws_send_def split: option.splits if_splits ready_state.splits)

lemma ws_send_open:
  "k < length socks \<Longrightarrow> readyState (socks ! k) = OPEN \<Longrightarrow>
   ws_send (Some k) text socks = Inr (socks[k := (socks ! k)\<lparr>wire := wire (socks ! k) @ [text]\<rparr>])"
  by (simp add: ws_send_def)

text \<open>What \<open>dispatch\<close> does to the sockets: at most one frame more on the wire of \<^verbatim>\<open>this.ws\<close>.\<close>

lemma dispatch_sockets:
  "sockets (dispatch (Request method params c) s) = sockets s
   \<or> (\<exists>k. ws (handle s) = Some k \<and> k < length (sockets s)
          \<and> readyState (sockets s ! k) = OPEN
          \<and> sockets (dispatch (Request method params c) s) =
              (sockets s)[k := (sockets s ! k)
                 \<lparr>wire := wire (sockets s ! k) @
                    [send_sql (fst (id_getter (handle s))) method params]\<rparr>])"
proof (cases "ws_send (ws (handle s)) (send_sql (fst (id_getter (handle s))) method params) (sockets s)")
  case (Inl e)
  then show ?thesis by (simp add: dispatch_eq Let_def throw_to_fields)
next
  case (Inr socks)
  from ws_send_cases [OF Inr] show ?thesis
    by (auto simp: dispatch_eq Let_def Inr)
qed

lemma dispatch_handle_fields:
  "opt_ns (handle (dispatch r s)) = opt_ns (handle s)"
  "opt_db (handle (dispatch r s)) = opt_db (handle s)"
  "ws (handle (dispatch r s)) = ws (handle s)"
  by (cases r; simp add: dispatch_eq Let_def throw_to_fields id_getter_fields split: sum.splits)+

lemma scoped_append_wire:
  assumes "scoped ns db s" and "k < length (sockets s)"
    and "wire (sockets s ! k) \<noteq> [] \<or> use_frame ns db text"
    and "sockets s' = (sockets s)[k := (sockets s ! k)\<lparr>wire := wire (sockets s ! k) @ [text]\<rparr>]"
  shows "scoped ns db s'"
  unfolding scoped_def
proof (intro allI impI)
  fix j
  assume j: "j < length (sockets s')" and ne: "wire (sockets s' ! j) \<noteq> []"
  show "use_frame ns db (hd (wire (sockets s' ! j)))"
  proof (cases "j = k")
    case True
    then have w: "wire (sockets s' ! j) = wire (sockets s ! k) @ [text]"
      using assms(2,4) by simp
    show ?thesis
    proof (cases "wire (sockets s ! k) = []")
      case True
      with assms(3) w show ?thesis by simp
    next
      case False
      then have "use_frame ns db (hd (wire (sockets s ! k)))"
        using assms(1,2) by (simp add: scoped_def)
      with False w show ?thesis by simp
    qed
  next
    case False
    then have "sockets s' ! j = sockets s ! j" using assms(4) by simp
    moreover have "j < length (sockets s)" using j assms(4) by simp
    ultimately show ?thesis using assms(1) ne by (simp add: scoped_def)
  qed
qed

lemma session_inv_dispatch:
  assumes "session_inv ns db s"
  shows "session_inv ns db (dispatch r s)"
proof -
  obtain m ps c where r: "r = Request m ps c" by (cases r)
  let ?s' = "dispatch r s"
  have opts: "opt_ns (handle ?s') = Some ns" "opt_db (handle ?s') = Some db"
    using assms by (simp_all add: dispatch_handle_fields session_inv_def)
  have ws': "ws (handle ?s') = ws (handle s)" by (simp add: dispatch_handle_fields)
  from dispatch_sockets [of m ps c s]
  consider (same) "sockets ?s' = sockets s"
    | (sent) k where "ws (handle s) = Some k" "k < length (sockets s)"
        "sockets ?s' = (sockets s)[k := (sockets s ! k)
            \<lparr>wire := wire (sockets s ! k) @
              [send_sql (fst (id_getter (handle s))) m ps]\<rparr>]"
    unfolding r by blast
  then show ?thesis
  proof cases
    case same
    then show ?thesis
      using assms opts ws' by (simp add: session_inv_def scoped_def)
  next
    case sent
    have ne: "wire (sockets s ! k) \<noteq> []"
      using assms sent(1) by (simp add: session_inv_def)
    have sc: "scoped ns db ?s'"
      by (rule scoped_append_wire [OF _ sent(2) _ sent(3)])
         (use assms ne in \<open>simp_all add: session_inv_def\<close>)
    have "\<forall>j. ws (handle ?s') = Some j \<longrightarrow>
        j < length (sockets ?s') \<and> wire (sockets ?s' ! j) \<noteq> []"
      using sent ws' by simp
    then show ?thesis
      using assms opts sc by (simp add: session_inv_def)
  qed
qed

lemma setup_opened_eq:
  assumes "opt_ns (handle s) = Some ns" and "opt_db (handle s) = Some db"
    and "ns \<noteq> []" and "db \<noteq> []"
    and "k < length (sockets s)" and "readyState (sockets s ! k) = OPEN"
  shows "setup_opened k r s =
     dispatch (Request ''use'' (Some (use_params ns db)) (Setup r))
       (s\<lparr>handle := (handle s)\<lparr>ws := Some k\<rparr>,
          sockets := (sockets s)[k := (sockets s ! k)\<lparr>listening := True\<rparr>]\<rparr>)"
  using assms
  by (simp add: setup_opened_def use_def send_def setup_call_def is_open_def Let_def)

lemma session_inv_setup_opened:
  assumes inv: "session_inv ns db s"
    and k: "k < length (sockets s)" and op: "readyState (sockets s ! k) = OPEN"
  shows "session_inv ns db (setup_opened k r s)"
proof -
  let ?s2 = "s\<lparr>handle := (handle s)\<lparr>ws := Some k\<rparr>,
               sockets := (sockets s)[k := (sockets s ! k)\<lparr>listening := True\<rparr>]\<rparr>"
  let ?i = "fst (id_getter (handle ?s2))"
  let ?text = "send_sql ?i ''use'' (Some (use_params ns db))"
  let ?s' = "dispatch (Request ''use'' (Some (use_params ns db)) (Setup r)) ?s2"
  have opts: "opt_ns (handle s) = Some ns" "opt_db (handle s) = Some db" "ns \<noteq> []" "db \<noteq> []"
    using inv by (simp_all add: session_inv_def)
  have eq: "setup_opened k r s = ?s'"
    by (rule setup_opened_eq [OF opts k op])
  have k2: "k < length (sockets ?s2)" using k by simp
  have op2: "readyState (sockets ?s2 ! k) = OPEN" using k op by simp
  have sc2: "scoped ns db ?s2"
    using inv k by (auto simp: session_inv_def scoped_def nth_list_update)
  have socks: "sockets ?s' = (sockets ?s2)[k := (sockets ?s2 ! k)
      \<lparr>wire := wire (sockets ?s2 ! k) @ [?text]\<rparr>]"
    using ws_send_open [OF k2 op2, of ?text]
    by (simp add: dispatch_eq Let_def)
  have uf: "use_frame ns db ?text" by (auto simp: use_frame_def)
  have sc: "scoped ns db ?s'"
    by (rule scoped_append_wire [OF sc2 k2 disjI2 [OF uf] socks])
  have ws': "ws (handle ?s') = Some k" by (simp add: dispatch_handle_fields)
  have o': "opt_ns (handle ?s') = Some ns" "opt_db (handle ?s') = Some db"
    using opts by (simp_all add: dispatch_handle_fields)
  have "k < length (sockets ?s') \<and> wire (sockets ?s' ! k) \<noteq> []"
    using k by (simp add: socks)
  then show ?thesis
    unfolding eq using opts(3,4) o' sc ws' by (simp add: session_inv_def)
qed

lemma session_inv_return_to:
  "session_inv ns db s \<Longrightarrow> session_inv ns db (return_to c v s)"
proof (cases c)
  case (User t p)
  assume "session_inv ns db s"
  moreover have "session_inv ns db (return_to (User t p) v s) = session_inv ns db s"
    by (cases p; rule session_inv_cong) simp_all
  ultimately show ?thesis using User by simp
next
  case (Setup r)
  assume "session_inv ns db s"
  then show ?thesis using Setup by (simp add: session_inv_dispatch)
qed

lemma session_inv_awaiting:
  "session_inv ns db (s\<lparr>awaiting := a\<rparr>) = session_inv ns db s"
  by (rule session_inv_cong) simp_all

lemma session_inv_resume:
  "session_inv ns db s \<Longrightarrow> session_inv ns db (resume p s)"
  by (auto simp: resume_def Let_def session_inv_throw_to session_inv_awaiting
           intro!: session_inv_return_to
           split: option.splits prod.splits sum.splits)

lemma session_inv_fold_resume:
  "session_inv ns db s \<Longrightarrow> session_inv ns db (fold resume ps s)"
  by (induction ps arbitrary: s) (simp_all add: session_inv_resume)

lemma on_message_handle_fields:
  "opt_ns (fst (on_message parse data h w)) = opt_ns h"
  "opt_db (fst (on_message parse data h w)) = opt_db h"
  "ws (fst (on_message parse data h w)) = ws h"
  by (auto simp: on_message_def Let_def
           split: option.splits sum.splits slot.splits prod.splits)

lemma session_inv_message:
  assumes "session_inv ns db s"
  shows "session_inv ns db (step rt (Message k data) s)"
proof -
  obtain h w out where m: "on_message (JSON_parse rt) data (handle s) (store s) = (h, w, out)"
    by (cases "on_message (JSON_parse rt) data (handle s) (store s)")
  have h: "opt_ns h = opt_ns (handle s)" "opt_db h = opt_db (handle s)" "ws h = ws (handle s)"
    using on_message_handle_fields [of "JSON_parse rt" data "handle s" "store s"]
    by (simp_all add: m)
  let ?s1 = "s\<lparr>handle := h, store := w,
                console := console s @ (if out = Done then [] else [out])\<rparr>"
  have "session_inv ns db ?s1 = session_inv ns db s"
    by (rule session_inv_cong) (simp_all add: h)
  then have i1: "session_inv ns db (?s1\<lparr>store := (store ?s1)\<lparr>jobs := []\<rparr>\<rparr>)"
    using assms session_inv_cong [of "?s1\<lparr>store := (store ?s1)\<lparr>jobs := []\<rparr>\<rparr>" ?s1 ns db]
    by simp
  have "session_inv ns db (run_jobs ?s1)"
    unfolding run_jobs_def by (rule session_inv_fold_resume [OF i1])
  then show ?thesis
    using assms by (simp add: step_Message m)
qed

lemma session_inv_set_readyState:
  "session_inv ns db (set_readyState k rs s) = session_inv ns db s"
  by (rule session_inv_cong) (simp_all add: set_readyState_def map_wire_update)

lemma session_inv_connecting:
  "session_inv ns db (s\<lparr>connecting := c\<rparr>) = session_inv ns db s"
  by (rule session_inv_cong) simp_all

lemma session_inv_connect_failed:
  "session_inv ns db (connect_failed k key ev s) = session_inv ns db s"
  by (cases "connecting s k")
     (simp_all add: connect_failed_def session_inv_throw_to session_inv_connecting)

lemma session_inv_createWebSocket:
  assumes "session_inv ns db s"
  shows "session_inv ns db (createWebSocket r s)"
proof -
  let ?s' = "createWebSocket r s"
  have socks: "sockets ?s' = sockets s @ [\<lparr>readyState = CONNECTING, listening = False, wire = []\<rparr>]"
    by (simp add: createWebSocket_def)
  have h: "handle ?s' = handle s" by (simp add: createWebSocket_def)
  have sc: "scoped ns db ?s'"
    unfolding scoped_def socks
  proof (intro allI impI)
    fix k
    assume k: "k < length (sockets s @ [\<lparr>readyState = CONNECTING, listening = False, wire = []\<rparr>])"
      and ne: "wire ((sockets s @ [\<lparr>readyState = CONNECTING, listening = False, wire = []\<rparr>]) ! k) \<noteq> []"
    have "k < length (sockets s)"
    proof (rule ccontr)
      assume "\<not> k < length (sockets s)"
      with k have "k = length (sockets s)" by simp
      with ne show False by simp
    qed
    then have lt: "k < length (sockets s)" .
    then have same: "(sockets s @ [\<lparr>readyState = CONNECTING, listening = False, wire = []\<rparr>]) ! k
        = sockets s ! k"
      by (simp add: nth_append)
    from assms have "scoped ns db s" by (simp add: session_inv_def)
    with lt ne same have "use_frame ns db (hd (wire (sockets s ! k)))"
      by (simp add: scoped_def)
    then show "use_frame ns db
        (hd (wire ((sockets s @ [\<lparr>readyState = CONNECTING, listening = False, wire = []\<rparr>]) ! k)))"
      by (simp only: same)
  qed
  have "\<forall>k. ws (handle s) = Some k \<longrightarrow>
      k < length (sockets ?s') \<and> wire (sockets ?s' ! k) \<noteq> []"
    using assms by (auto simp: socks nth_append session_inv_def)
  then show ?thesis
    using assms sc by (simp add: session_inv_def h)
qed

lemma session_inv_setup_call:
  "session_inv ns db s \<Longrightarrow> session_inv ns db (setup_call r s)"
  by (simp add: setup_call_def session_inv_dispatch session_inv_createWebSocket)

lemma session_inv_open:
  assumes "session_inv ns db s"
  shows "session_inv ns db (step rt (Open k) s)"
proof (cases "k < length (sockets s) \<and> readyState (sockets s ! k) = CONNECTING")
  case False
  then show ?thesis using assms by (auto simp: step_Open)
next
  case True
  let ?s1 = "set_readyState k OPEN s"
  have i1: "session_inv ns db ?s1" using assms by (simp add: session_inv_set_readyState)
  show ?thesis
  proof (cases "connecting s k")
    case None
    then show ?thesis using True i1 by (simp add: step_Open Let_def)
  next
    case (Some r)
    let ?s2 = "?s1\<lparr>connecting := (connecting s)(k := None)\<rparr>"
    have i2: "session_inv ns db ?s2" using i1 by (simp add: session_inv_connecting)
    have k2: "k < length (sockets ?s2)" using True by (simp add: set_readyState_def)
    have o2: "readyState (sockets ?s2 ! k) = OPEN" using True by (simp add: set_readyState_def)
    have "session_inv ns db (setup_opened k r ?s2)"
      by (rule session_inv_setup_opened [OF i2 k2 o2])
    then show ?thesis using True Some by (simp add: step_Open Let_def)
  qed
qed

lemma session_inv_step:
  assumes "session_inv ns db s"
  shows "session_inv ns db (step rt ev s)"
proof (cases ev)
  case (Call t op)
  then show ?thesis using assms by (simp add: step_Call session_inv_setup_call)
next
  case (Open k)
  then show ?thesis using assms by (simp add: session_inv_open)
next
  case (Error k e)
  then show ?thesis using assms by (simp add: step_def session_inv_connect_failed)
next
  case (Close k e)
  then show ?thesis
    using assms by (simp add: step_def session_inv_connect_failed session_inv_set_readyState)
next
  case (Message k data)
  then show ?thesis using assms by (simp add: session_inv_message)
next
  case CloseCall
  then show ?thesis
    using assms by (simp add: step_def session_inv_set_readyState split: option.splits)
qed

lemma session_inv_run:
  "session_inv ns db s \<Longrightarrow> session_inv ns db (run rt evs s)"
  by (induction evs arbitrary: s) (simp_all add: run_Nil run_Cons session_inv_step)

lemma session_inv_init:
  "ns \<noteq> [] \<Longrightarrow> db \<noteq> [] \<Longrightarrow> session_inv ns db (init (Some ns) (Some db))"
  by (simp add: session_inv_def scoped_def init_def new_Surreal_def)

lemma id_getter_ws: "fst (id_getter (h\<lparr>ws := w\<rparr>)) = fst (id_getter h)"
  by (simp add: id_getter_def Let_def)

lemma map_wire_same:
  assumes "wire x = wire (socks ! k)"
  shows "map wire (socks[k := x]) = map wire socks"
proof -
  have "map wire (socks[k := x]) = (map wire socks)[k := wire (socks ! k)]"
    by (simp only: map_update assms)
  also have "\<dots> = map wire (socks[k := (socks ! k)\<lparr>listening := True\<rparr>])"
    by (simp add: map_update)
  also have "\<dots> = map wire socks" by (rule map_wire_update(2))
  finally show ?thesis .
qed

lemma dispatch_open:
  assumes "ws (handle s) = Some k" and "k < length (sockets s)"
    and "readyState (sockets s ! k) = OPEN"
  shows "sockets (dispatch (Request method params c) s) =
           (sockets s)[k := (sockets s ! k)
              \<lparr>wire := wire (sockets s ! k)
                 @ [send_sql (fst (id_getter (handle s))) method params]\<rparr>]"
    and "awaiting (dispatch (Request method params c) s) =
           (awaiting s)(length (cells (store s)) \<mapsto>
              (Request method params c, send_sql (fst (id_getter (handle s))) method params))"
    and "settled (dispatch (Request method params c) s) = settled s"
    and "channels (handle (dispatch (Request method params c) s)) =
           (channels (handle s))(dec (fst (id_getter (handle s))) \<mapsto>
              \<lparr>resolve = resolver (length (cells (store s))),
               reject = rejecter (length (cells (store s))),
               sql = send_sql (fst (id_getter (handle s))) method params\<rparr>)"
    and "store (dispatch (Request method params c) s) =
           (store s)\<lparr>cells := cells (store s) @ [None]\<rparr>"
    and "state (handle (dispatch (Request method params c) s)) =
           state (snd (id_getter (handle s)))"
    and "connecting (dispatch (Request method params c) s) = connecting s"
    and "console (dispatch (Request method params c) s) = console s"
proof -
  note send = ws_send_open [OF assms(2,3),
      of "send_sql (fst (id_getter (handle s))) method params"]
  show "sockets (dispatch (Request method params c) s) =
           (sockets s)[k := (sockets s ! k)
              \<lparr>wire := wire (sockets s ! k)
                 @ [send_sql (fst (id_getter (handle s))) method params]\<rparr>]"
    by (simp add: dispatch_eq Let_def assms(1) send)
  show "awaiting (dispatch (Request method params c) s) =
           (awaiting s)(length (cells (store s)) \<mapsto>
              (Request method params c, send_sql (fst (id_getter (handle s))) method params))"
    by (simp add: dispatch_eq Let_def assms(1) send)
  show "settled (dispatch (Request method params c) s) = settled s"
    by (simp add: dispatch_eq Let_def assms(1) send)
  show "channels (handle (dispatch (Request method params c) s)) =
           (channels (handle s))(dec (fst (id_getter (handle s))) \<mapsto>
              \<lparr>resolve = resolver (length (cells (store s))),
               reject = rejecter (length (cells (store s))),
               sql = send_sql (fst (id_getter (handle s))) method params\<rparr>)"
    by (simp add: dispatch_eq Let_def assms(1) send)
  show "store (dispatch (Request method params c) s) =
           (store s)\<lparr>cells := cells (store s) @ [None]\<rparr>"
    by (simp add: dispatch_eq Let_def assms(1) send)
  show "state (handle (dispatch (Request method params c) s)) =
           state (snd (id_getter (handle s)))"
    by (simp add: dispatch_eq Let_def assms(1) send)
  show "connecting (dispatch (Request method params c) s) = connecting s"
    by (simp add: dispatch_eq Let_def assms(1) send)
  show "console (dispatch (Request method params c) s) = console s"
    by (simp add: dispatch_eq Let_def assms(1) send)
qed

lemma open_sends_use:
  assumes inv: "session_inv ns db s"
    and k: "k < length (sockets s)" and c: "readyState (sockets s ! k) = CONNECTING"
    and r: "connecting s k = Some r"
  shows "map wire (sockets (step rt (Open k) s)) =
           (map wire (sockets s))
             [k := wire (sockets s ! k)
                @ [send_sql (fst (id_getter (handle s))) ''use'' (Some (use_params ns db))]]"
    and "awaiting (step rt (Open k) s) (length (cells (store s))) =
           Some (Request ''use'' (Some (use_params ns db)) (Setup r),
                 send_sql (fst (id_getter (handle s))) ''use'' (Some (use_params ns db)))"
    and "settled (step rt (Open k) s) = settled s"
proof -
  let ?text = "send_sql (fst (id_getter (handle s))) ''use'' (Some (use_params ns db))"
  define s2 where "s2 = (set_readyState k OPEN s)\<lparr>connecting := (connecting s)(k := None)\<rparr>"
  define s3 where "s3 = s2\<lparr>handle := (handle s2)\<lparr>ws := Some k\<rparr>,
                 sockets := (sockets s2)[k := (sockets s2 ! k)\<lparr>listening := True\<rparr>]\<rparr>"
  have opts: "opt_ns (handle s2) = Some ns" "opt_db (handle s2) = Some db" "ns \<noteq> []" "db \<noteq> []"
    using inv by (simp_all add: session_inv_def set_readyState_def s2_def)
  have k2: "k < length (sockets s2)" using k by (simp add: set_readyState_def s2_def)
  have o2: "readyState (sockets s2 ! k) = OPEN" using k by (simp add: set_readyState_def s2_def)
  have st: "step rt (Open k) s = setup_opened k r s2"
    using k c r by (simp add: step_Open Let_def s2_def)
  have eq: "setup_opened k r s2 =
      dispatch (Request ''use'' (Some (use_params ns db)) (Setup r)) s3"
    unfolding s3_def by (rule setup_opened_eq [OF opts k2 o2])
  have ws3: "ws (handle s3) = Some k" by (simp add: s3_def)
  have k3: "k < length (sockets s3)" using k2 by (simp add: s3_def)
  have o3: "readyState (sockets s3 ! k) = OPEN" using k2 o2 by (simp add: s3_def)
  have i3: "fst (id_getter (handle s3)) = fst (id_getter (handle s))"
    by (simp add: id_getter_ws set_readyState_def s3_def s2_def)
  have w3: "wire (sockets s3 ! k) = wire (sockets s ! k)"
    using k by (simp add: set_readyState_def s3_def s2_def)
  have m2: "map wire (sockets s2) = map wire (sockets s)"
    by (simp add: s2_def set_readyState_def map_wire_update)
  have m3: "map wire (sockets s3) = map wire (sockets s)"
    unfolding m2 [symmetric] by (simp add: s3_def map_wire_update)
  have c3: "cells (store s3) = cells (store s)"
    by (simp add: s3_def s2_def set_readyState_def)
  have a3: "settled s3 = settled s"
    by (simp add: s3_def s2_def set_readyState_def)
  note d = dispatch_open [OF ws3 k3 o3, of "''use''" "Some (use_params ns db)" "Setup r"]
  show "map wire (sockets (step rt (Open k) s)) =
      (map wire (sockets s))[k := wire (sockets s ! k) @ [?text]]"
    unfolding st eq d(1) by (simp add: map_update m3 w3 i3)
  show "awaiting (step rt (Open k) s) (length (cells (store s))) =
      Some (Request ''use'' (Some (use_params ns db)) (Setup r), ?text)"
    unfolding st eq d(2) by (simp add: c3 i3)
  show "settled (step rt (Open k) s) = settled s"
    unfolding st eq d(3) by (rule a3)
qed

text \<open>
  C9. On a handle made with a namespace and a database (both non-empty, as line 101
  tests them), whatever tasks run: the first frame on the wire of every socket is the
  \<^verbatim>\<open>use\<close> request. And when a socket opens for the \<^verbatim>\<open>send\<close> \<open>r\<close> whose \<^verbatim>\<open>setup\<close> made it, that
  task puts the \<^verbatim>\<open>use\<close> request on the wire and nothing else: \<open>r\<close> is left waiting, as
  \<open>Setup r\<close>, for the promise of the \<^verbatim>\<open>use\<close> call, and no operation has ended.
\<close>

theorem use_is_first_on_every_wire:
  assumes "ns \<noteq> []" and "db \<noteq> []"
  shows "scoped ns db (run rt evs (init (Some ns) (Some db)))
    \<and> (\<forall>k r. k < length (sockets (run rt evs (init (Some ns) (Some db))))
          \<and> readyState (sockets (run rt evs (init (Some ns) (Some db))) ! k) = CONNECTING
          \<and> connecting (run rt evs (init (Some ns) (Some db))) k = Some r \<longrightarrow>
        map wire (sockets (step rt (Open k) (run rt evs (init (Some ns) (Some db))))) =
          (map wire (sockets (run rt evs (init (Some ns) (Some db)))))
            [k := wire (sockets (run rt evs (init (Some ns) (Some db))) ! k)
               @ [send_sql (fst (id_getter (handle (run rt evs (init (Some ns) (Some db))))))
                    ''use'' (Some (use_params ns db))]]
        \<and> awaiting (step rt (Open k) (run rt evs (init (Some ns) (Some db))))
            (length (cells (store (run rt evs (init (Some ns) (Some db)))))) =
          Some (Request ''use'' (Some (use_params ns db)) (Setup r),
                send_sql (fst (id_getter (handle (run rt evs (init (Some ns) (Some db))))))
                  ''use'' (Some (use_params ns db)))
        \<and> settled (step rt (Open k) (run rt evs (init (Some ns) (Some db)))) =
            settled (run rt evs (init (Some ns) (Some db))))"
proof -
  let ?s = "run rt evs (init (Some ns) (Some db))"
  have inv: "session_inv ns db ?s"
    by (rule session_inv_run [OF session_inv_init [OF assms]])
  then have "scoped ns db ?s" by (simp add: session_inv_def)
  moreover have "\<And>k r. k < length (sockets ?s) \<Longrightarrow> readyState (sockets ?s ! k) = CONNECTING \<Longrightarrow>
      connecting ?s k = Some r \<Longrightarrow>
      map wire (sockets (step rt (Open k) ?s)) =
        (map wire (sockets ?s))
          [k := wire (sockets ?s ! k)
             @ [send_sql (fst (id_getter (handle ?s))) ''use'' (Some (use_params ns db))]]
      \<and> awaiting (step rt (Open k) ?s) (length (cells (store ?s))) =
        Some (Request ''use'' (Some (use_params ns db)) (Setup r),
              send_sql (fst (id_getter (handle ?s))) ''use'' (Some (use_params ns db)))
      \<and> settled (step rt (Open k) ?s) = settled ?s"
    using open_sends_use [OF inv] by blast
  ultimately show ?thesis by blast
qed

theorem use_is_first_on_every_wire_witness:
  \<open>scoped ''test'' ''test''
     (run (example_runtime []) [Call 0 (Send ''info'' None)] (init (Some ''test'') (Some ''test'')))
   \<and> map wire (sockets (step (example_runtime []) (Open 0)
        (run (example_runtime []) [Call 0 (Send ''info'' None)]
           (init (Some ''test'') (Some ''test'')))))
     = [[''{"id":0,"method":"use","params":["test","test"]}'']]
   \<and> awaiting (step (example_runtime []) (Open 0)
        (run (example_runtime []) [Call 0 (Send ''info'' None)]
           (init (Some ''test'') (Some ''test'')))) 0
     = Some (Request ''use'' (Some ''["test","test"]'') (Setup (Request ''info'' None (User 0 Plain))),
             ''{"id":0,"method":"use","params":["test","test"]}'')\<close>
proof -
  let ?rt = "example_runtime []"
  let ?s = "run ?rt [Call 0 (Send ''info'' None)] (init (Some ''test'') (Some ''test''))"
  let ?r = "Request ''info'' None (User 0 Plain)"
  have h: "0 < length (sockets ?s) \<and> readyState (sockets ?s ! 0) = CONNECTING
      \<and> connecting ?s 0 = Some ?r"
    by (simp add: event_loop_defs)
  have v: "fst (id_getter (handle ?s)) = 0" "wire (sockets ?s ! 0) = []"
    "map wire (sockets ?s) = [[]]" "length (cells (store ?s)) = 0"
    by (simp_all add: event_loop_defs)
  have ne: "''test'' \<noteq> []" by simp
  from use_is_first_on_every_wire [OF ne ne, of ?rt "[Call 0 (Send ''info'' None)]"] h
  have "scoped ''test'' ''test'' ?s
    \<and> map wire (sockets (step ?rt (Open 0) ?s)) =
        (map wire (sockets ?s))
          [0 := wire (sockets ?s ! 0)
             @ [send_sql (fst (id_getter (handle ?s))) ''use'' (Some (use_params ''test'' ''test''))]]
    \<and> awaiting (step ?rt (Open 0) ?s) (length (cells (store ?s))) =
        Some (Request ''use'' (Some (use_params ''test'' ''test'')) (Setup ?r),
              send_sql (fst (id_getter (handle ?s))) ''use'' (Some (use_params ''test'' ''test'')))"
    by blast
  then show ?thesis
    unfolding v by (simp add: send_sql_def use_params_def dec.simps digit_char_def)
qed

section \<open>The request envelope as JSON text\<close>

lemma json_run_append:
  "json_run q (a @ b) = (case json_run q a of None \<Rightarrow> None | Some q' \<Rightarrow> json_run q' b)"
  by (induction a arbitrary: q) (simp_all split: option.splits)

lemma json_run_plain: "plain s \<Longrightarrow> json_run (InString k, st) s = Some (InString k, st)"
  by (induction s) (simp_all add: plain_def)

lemma digit_cases:
  assumes "d < 10"
  shows "d = 0 \<or> d = 1 \<or> d = 2 \<or> d = 3 \<or> d = 4 \<or> d = 5 \<or> d = 6 \<or> d = 7 \<or> d = 8 \<or> (d::nat) = 9"
  using assms by arith

lemma digit_char_zero: "d < 10 \<Longrightarrow> (digit_char d = CHR ''0'') = (d = 0)"
  by (drule digit_cases) (auto simp: digit_char_def)

lemma value_start_digit:
  "d < 10 \<Longrightarrow> value_start st (digit_char d) = Some (if d = 0 then Zero else Digits, st)"
  by (drule digit_cases) (auto simp: digit_char_def value_start_def is_digit_def)

lemma is_digit_digit_char: "d < 10 \<Longrightarrow> is_digit (digit_char d)"
  by (drule digit_cases) (auto simp: digit_char_def is_digit_def)

lemma is_ws_digit_char: "d < 10 \<Longrightarrow> \<not> is_ws (digit_char d)"
  by (drule digit_cases) (auto simp: digit_char_def is_ws_def)

lemma json_run_dec:
  "json_run (Value, st) (dec n) = Some (if n = 0 then Zero else Digits, st)"
proof (induction n rule: dec.induct)
  case (1 n)
  show ?case
  proof (cases "n < 10")
    case True
    then show ?thesis
      by (simp add: dec.simps [of n] value_start_digit is_ws_digit_char)
  next
    case False
    then have pos: "n div 10 \<noteq> 0" by simp
    have d: "n mod 10 < 10" by simp
    have "json_run (Value, st) (dec (n div 10)) = Some (Digits, st)"
      using "1.IH" [OF False] pos by simp
    then show ?thesis
      using False by (simp add: dec.simps [of n] json_run_append is_digit_digit_char [OF d])
  qed
qed

lemmas json_defs =
  is_ws_def is_digit_def is_hex_def is_control_def after_value_def value_start_def

lemma run_open_id: \<open>json_run (Value, []) ''{"id":'' = Some (Value, [InObject])\<close>
  by (simp add: json_defs)

lemma run_method_key:
  \<open>json_run (if i = 0 then Zero else Digits, [InObject]) '',"method":"''
     = Some (InString False, [InObject])\<close>
  by (simp add: json_defs)

lemma run_close: \<open>json_run (InString False, [InObject]) ''"}'' = Some (After, [])\<close>
  by (simp add: json_defs)

lemma run_params_key:
  \<open>json_run (InString False, [InObject]) ''","params":'' = Some (Value, [InObject])\<close>
  by (simp add: json_defs)

lemma run_use_params:
  assumes "plain ns" and "plain db"
  shows "json_run (Value, [InObject]) (use_params ns db) = Some (After, [InObject])"
proof -
  have a: \<open>json_run (Value, [InObject]) ''["'' = Some (InString False, [InArray, InObject])\<close>
    by (simp add: json_defs)
  have b: \<open>json_run (InString False, [InArray, InObject]) ''","''
      = Some (InString False, [InArray, InObject])\<close>
    by (simp add: json_defs)
  have c: \<open>json_run (InString False, [InArray, InObject]) ''"]'' = Some (After, [InObject])\<close>
    by (simp add: json_defs)
  show ?thesis
    by (simp only: use_params_def json_run_append a b c json_run_plain [OF assms(1)]
          json_run_plain [OF assms(2)] option.case)
qed

lemma run_end: \<open>json_run (After, [InObject]) ''}'' = Some (After, [])\<close>
  by (simp add: json_defs)

lemma send_sql_text:
  \<open>send_sql i m None = ''{"id":'' @ dec i @ '',"method":"'' @ m @ ''"}''\<close>
  \<open>p \<noteq> [] \<Longrightarrow>
   send_sql i m (Some p) = ''{"id":'' @ dec i @ '',"method":"'' @ m @ ''","params":'' @ p @ ''}''\<close>
  by (simp_all add: send_sql_def)

lemma use_params_not_empty: "use_params ns db \<noteq> []"
  by (simp add: use_params_def)

lemma json_wf_send_plain:
  assumes "plain m"
  shows "json_wf (send_sql i m None)"
proof -
  have "json_run (Value, []) (send_sql i m None) = Some (After, [])"
    by (simp only: send_sql_text json_run_append run_open_id json_run_dec run_method_key
          json_run_plain [OF assms] run_close option.case)
  then show ?thesis by (simp add: json_wf_def)
qed

lemma json_wf_send_use:
  assumes "plain m" and "plain ns" and "plain db"
  shows "json_wf (send_sql i m (Some (use_params ns db)))"
proof -
  have "json_run (Value, []) (send_sql i m (Some (use_params ns db))) = Some (After, [])"
    by (simp only: send_sql_text(2) [OF use_params_not_empty] json_run_append run_open_id
          json_run_dec run_method_key json_run_plain [OF assms(1)] run_params_key
          run_use_params [OF assms(2,3)] run_end option.case)
  then show ?thesis by (simp add: json_wf_def)
qed

lemma json_run_fails: "json_step q c = None \<Longrightarrow> json_run q (c # cs) = None"
  by simp

lemma not_json_quote_in_namespace:
  \<open>\<not> json_wf (send_sql i m (Some (use_params (a @ ''"b'' @ c) db)))\<close> if "plain m" and "plain a"
proof -
  have t: \<open>send_sql i m (Some (use_params (a @ ''"b'' @ c) db))
      = ''{"id":'' @ dec i @ '',"method":"'' @ m @ ''","params":'' @ ''["'' @ a @ ''"''
        @ (CHR ''b'' # c @ ''","'' @ db @ ''"]}'')\<close>
    by (simp add: send_sql_def use_params_def)
  have a: \<open>json_run (Value, [InObject]) ''["'' = Some (InString False, [InArray, InObject])\<close>
    by (simp add: json_defs)
  have q: \<open>json_run (InString False, [InArray, InObject]) ''"'' = Some (After, [InArray, InObject])\<close>
    by (simp add: json_defs)
  have b: "json_step (After, [InArray, InObject]) CHR ''b'' = None"
    by (simp add: json_defs)
  have "json_run (Value, []) (send_sql i m (Some (use_params (a @ ''\"b'' @ c) db))) = None"
    by (simp only: t json_run_append run_open_id json_run_dec run_method_key
          json_run_plain [OF that(1)] run_params_key a json_run_plain [OF that(2)] q
          json_run_fails [OF b] option.case)
  then show ?thesis by (simp add: json_wf_def)
qed

text \<open>
  C10 (as amended). \<^verbatim>\<open>send\<close> puts the method, and \<^verbatim>\<open>use\<close> the namespace and the database,
  into the frame as they are. When they hold no double quote, no backslash and no
  control character, the frame is well-formed JSON; with a double quote in the
  namespace (after a text that has none) it is not.
\<close>

theorem envelope_is_json_for_plain_arguments:
  \<open>send_sql i m None = ''{"id":'' @ dec i @ '',"method":"'' @ m @ ''"}''
   \<and> send_sql i m (Some (use_params ns db))
       = ''{"id":'' @ dec i @ '',"method":"'' @ m @ ''","params":["'' @ ns @ ''","'' @ db @ ''"]}''
   \<and> (plain m \<longrightarrow> json_wf (send_sql i m None))
   \<and> (plain m \<and> plain ns \<and> plain db \<longrightarrow> json_wf (send_sql i m (Some (use_params ns db))))
   \<and> (plain m \<and> plain ns \<longrightarrow> \<not> json_wf (send_sql i m (Some (use_params (ns @ ''"b'' @ c) db))))\<close>
proof -
  have \<open>send_sql i m (Some (use_params ns db))
       = ''{"id":'' @ dec i @ '',"method":"'' @ m @ ''","params":["'' @ ns @ ''","'' @ db @ ''"]}''\<close>
    by (simp add: send_sql_def use_params_def)
  then show ?thesis
    using json_wf_send_plain [of m i] json_wf_send_use [of m ns db i]
      not_json_quote_in_namespace [of m ns i c db]
    by (simp add: send_sql_text(1))
qed

theorem envelope_is_json_for_plain_arguments_witness:
  \<open>json_wf ''{"id":7,"method":"info"}''
   \<and> json_wf ''{"id":7,"method":"info","params":["test","app"]}''
   \<and> \<not> json_wf ''{"id":7,"method":"info","params":["test"b","app"]}''\<close>
proof -
  have p: "plain ''info''" "plain ''test''" "plain ''app''"
    by (simp_all add: plain_def is_control_def)
  have t: \<open>send_sql 7 ''info'' None = ''{"id":7,"method":"info"}''\<close>
    \<open>send_sql 7 ''info'' (Some (use_params ''test'' ''app''))
      = ''{"id":7,"method":"info","params":["test","app"]}''\<close>
    \<open>send_sql 7 ''info'' (Some (use_params (''test'' @ ''"b'' @ []) ''app''))
      = ''{"id":7,"method":"info","params":["test"b","app"]}''\<close>
    by (simp_all add: send_sql_def use_params_def dec.simps digit_char_def)
  from envelope_is_json_for_plain_arguments [of 7 "''info''" "''test''" "''app''" "[]"] p
  show ?thesis unfolding t by blast
qed

text \<open>
  The claim as the spec words it fails: a namespace that is one line feed has no
  double quote and no backslash, and the frame is not JSON.
\<close>

theorem line_feed_in_namespace_counterexample:
  \<open>CHR ''"'' \<notin> set [CHR 0x0A] \<and> CHR 0x5C \<notin> set [CHR 0x0A]
   \<and> send_sql 0 ''use'' (Some (use_params [CHR 0x0A] ''db''))
       = ''{"id":0,"method":"use","params":["'' @ [CHR 0x0A] @ ''","db"]}''
   \<and> \<not> json_wf (send_sql 0 ''use'' (Some (use_params [CHR 0x0A] ''db'')))\<close>
  by (simp add: send_sql_def use_params_def dec.simps digit_char_def json_wf_def json_defs)

section \<open>Concurrent requests\<close>

subsection \<open>Ids and keys are distinct\<close>

lemma of_char_digit_char: "d < 10 \<Longrightarrow> of_char (digit_char d) = (48 + d :: nat)"
  by (drule digit_cases) (auto simp: digit_char_def)

lemma digit_char_inj: "a < 10 \<Longrightarrow> b < 10 \<Longrightarrow> digit_char a = digit_char b \<Longrightarrow> a = b"
proof -
  assume a: "a < 10" and b: "b < 10" and e: "digit_char a = digit_char b"
  have "(48 + a :: nat) = of_char (digit_char a)" by (simp only: of_char_digit_char [OF a])
  also have "\<dots> = of_char (digit_char b)" by (simp only: e)
  also have "\<dots> = 48 + b" by (simp only: of_char_digit_char [OF b])
  finally show "a = b" by (simp only: add_left_cancel)
qed

lemma dec_not_empty: "dec n \<noteq> []"
  by (subst dec.simps) simp

lemma dec_inj: "dec a = dec b \<Longrightarrow> a = b"
proof (induction a arbitrary: b rule: dec.induct)
  case (1 a)
  show ?case
  proof (cases "a < 10")
    case True
    then have da: "dec a = [digit_char a]" by (simp add: dec.simps [of a])
    show ?thesis
    proof (cases "b < 10")
      case b: True
      then have "dec b = [digit_char b]" by (simp add: dec.simps [of b])
      with da "1.prems" have "digit_char a = digit_char b" by simp
      then show ?thesis by (rule digit_char_inj [OF True b])
    next
      case False
      then have "dec b = dec (b div 10) @ [digit_char (b mod 10)]" by (simp add: dec.simps [of b])
      with da "1.prems" have "dec (b div 10) = []" by simp
      then show ?thesis by (simp add: dec_not_empty)
    qed
  next
    case False
    then have da: "dec a = dec (a div 10) @ [digit_char (a mod 10)]" by (simp add: dec.simps [of a])
    show ?thesis
    proof (cases "b < 10")
      case True
      then have "dec b = [digit_char b]" by (simp add: dec.simps [of b])
      with da "1.prems" have "dec (a div 10) = []" by simp
      then show ?thesis by (simp add: dec_not_empty)
    next
      case b: False
      then have db: "dec b = dec (b div 10) @ [digit_char (b mod 10)]"
        by (simp add: dec.simps [of b])
      from da db "1.prems" have e: "dec (a div 10) = dec (b div 10)"
        and d: "digit_char (a mod 10) = digit_char (b mod 10)" by simp_all
      have q: "a div 10 = b div 10" by (rule "1.IH" [OF False e])
      have m: "a mod 10 = b mod 10" by (rule digit_char_inj [OF _ _ d]) simp_all
      have "a = 10 * (a div 10) + a mod 10" by simp
      also have "\<dots> = 10 * (b div 10) + b mod 10" by (simp only: q m)
      also have "\<dots> = b" by simp
      finally show ?thesis .
    qed
  qed
qed

lemma int_dec_int: "int_dec (int n) = dec n"
  by (simp add: int_dec_def)

lemma mod_add_inj0:
  fixes a x y m :: nat
  assumes "(a + x) mod m = (a + y) mod m"
  shows "x mod m = y mod m"
proof -
  from assms obtain q1 q2 where "a + x + m * q1 = a + y + m * q2"
    unfolding nat_mod_eq_iff by blast
  then have "x + m * q1 = y + m * q2" by simp
  then show ?thesis unfolding nat_mod_eq_iff by blast
qed

lemma id_getter_state_only:
  "state h = state h' \<Longrightarrow> fst (id_getter h) = fst (id_getter h')"
  "state h = state h' \<Longrightarrow> state (snd (id_getter h)) = state (snd (id_getter h'))"
  by (simp_all add: id_getter_def Let_def)

lemma allocate_Suc:
  "fst (allocate (Suc n) h) = fst (id_getter h) # fst (allocate n (snd (id_getter h)))"
  by (simp split: prod.splits)

lemma allocate_state_only:
  "state h = state h' \<Longrightarrow> fst (allocate n h) = fst (allocate n h')"
proof (induction n arbitrary: h h')
  case 0
  show ?case by simp
next
  case (Suc n)
  have "fst (allocate n (snd (id_getter h))) = fst (allocate n (snd (id_getter h')))"
    by (rule Suc.IH) (rule id_getter_state_only(2) [OF Suc.prems])
  then show ?case
    by (simp only: allocate_Suc id_getter_state_only(1) [OF Suc.prems])
qed

lemma id_getter_next:
  "fst (id_getter h) < 1001" "state (snd (id_getter h)) = Suc (fst (id_getter h))"
  by (simp_all add: id_getter_def Let_def)

lemma map_mod_shift:
  fixes a m :: nat
  assumes "a < m"
  shows "a # map (\<lambda>k. (Suc a + k) mod m) [0..<n] = map (\<lambda>k. (a + k) mod m) [0..<Suc n]"
proof -
  have "[0..<Suc n] = 0 # map Suc [0..<n]"
    by (simp only: map_Suc_upt upt_conv_Cons [of 0 "Suc n"] zero_less_Suc)
  then have "map (\<lambda>k. (a + k) mod m) [0..<Suc n]
      = (a + 0) mod m # map (\<lambda>k. (a + Suc k) mod m) [0..<n]"
    by (simp only: list.map map_map o_def)
  also have "(a + 0) mod m = a" using assms by simp
  also have "(\<lambda>k. (a + Suc k) mod m) = (\<lambda>k. (Suc a + k) mod m)" by simp
  finally show ?thesis by (rule sym)
qed

lemma allocate_any:
  "fst (allocate (Suc n) h) = map (\<lambda>k. (fst (id_getter h) + k) mod 1001) [0..<Suc n]"
proof -
  let ?a = "fst (id_getter h)" and ?h1 = "snd (id_getter h)"
  have s1: "state ?h1 = Suc ?a" by (rule id_getter_next(2))
  have "Suc ?a \<le> 1001" using id_getter_next(1) [of h] by (simp only: Suc_le_eq)
  then have le: "state ?h1 \<le> 1001" by (simp only: s1)
  have "fst (allocate n ?h1) = map (\<lambda>k. (Suc ?a + k) mod 1001) [0..<n]"
    using allocate_ids [OF le, of n] by (simp only: s1)
  then have "fst (allocate (Suc n) h) = ?a # map (\<lambda>k. (Suc ?a + k) mod 1001) [0..<n]"
    by (simp only: allocate_Suc)
  also have "\<dots> = map (\<lambda>k. (?a + k) mod 1001) [0..<Suc n]"
    by (rule map_mod_shift [OF id_getter_next(1)])
  finally show ?thesis .
qed

lemma distinct_map_mod:
  fixes a m :: nat
  assumes "n \<le> m"
  shows "distinct (map (\<lambda>k. (a + k) mod m) [0..<n])"
proof -
  have "inj_on (\<lambda>k. (a + k) mod m) (set [0..<n])"
  proof (rule inj_onI)
    fix x y
    assume "x \<in> set [0..<n]" and "y \<in> set [0..<n]"
      and e: "(a + x) mod m = (a + y) mod m"
    then have x: "x < m" and y: "y < m" using assms by simp_all
    from mod_add_inj0 [OF e] have "x mod m = y mod m" .
    then show "x = y" using x y by simp
  qed
  then show ?thesis by (simp add: distinct_map)
qed

lemma allocate_distinct: "n \<le> 1001 \<Longrightarrow> distinct (fst (allocate n h))"
proof (cases n)
  case 0
  then show ?thesis by simp
next
  case (Suc k)
  assume "n \<le> 1001"
  then have "distinct (map (\<lambda>j. (fst (id_getter h) + j) mod 1001) [0..<n])"
    by (rule distinct_map_mod)
  then show ?thesis by (simp only: Suc allocate_any)
qed

lemma allocate_length: "length (fst (allocate n h)) = n"
proof (induction n arbitrary: h)
  case 0
  show ?case by simp
next
  case (Suc n)
  show ?case unfolding allocate_Suc by (simp add: Suc.IH del: allocate.simps)
qed

subsection \<open>One response\<close>

lemma return_to_User_fields:
  "handle (return_to (User t po) v s) = handle s"
  "sockets (return_to (User t po) v s) = sockets s"
  "store (return_to (User t po) v s) = store s"
  "awaiting (return_to (User t po) v s) = awaiting s"
  by (cases po; simp)+

lemma resume_User:
  assumes "awaiting s p = Some (r, text)" and "caller_of r = User t po"
    and "p < length (cells (store s))" and "cells (store s) ! p = Some res"
  shows "handle (resume p s) = handle s"
    and "sockets (resume p s) = sockets s"
    and "store (resume p s) = store s"
    and "awaiting (resume p s) = (awaiting s)(p := None)"
  using assms
  by (auto simp: resume_def Let_def throw_to_fields return_to_User_fields
           split: sum.splits)

lemma message_step:
  assumes sock: "k < length (sockets s)" "listening (sockets s ! k)"
    and jobs: "jobs (store s) = []"
    and parse: "JSON_parse rt x = Some f" and fid: "get_prop f ''id'' = Inr (JNum (int n))"
    and ch: "channels (handle s) (dec n) =
               Some \<lparr>resolve = resolver p, reject = rejecter p, sql = text\<rparr>"
    and aw: "awaiting s p = Some (r, text)" and cal: "caller_of r = User t po"
    and cell: "p < length (cells (store s))" "cells (store s) ! p = None"
  shows "cells (store (step rt (Message k x) s)) = (cells (store s))[p := Some (Inr f)]"
    and "jobs (store (step rt (Message k x) s)) = []"
    and "channels (handle (step rt (Message k x) s)) = (channels (handle s))(dec n := None)"
    and "awaiting (step rt (Message k x) s) = (awaiting s)(p := None)"
    and "sockets (step rt (Message k x) s) = sockets s"
proof -
  define h' where "h' = (handle s)\<lparr>channels := (channels (handle s))(dec n := None)\<rparr>"
  define w' where "w' = (store s)\<lparr>cells := (cells (store s))[p := Some (Inr f)], jobs := [p]\<rparr>"
  have key: "to_string (JNum (int n)) = dec n" by (simp add: int_dec_int)
  have ch': "channels (handle s) (to_string (JNum (int n))) =
      Some \<lparr>resolve = resolver p, reject = rejecter p, sql = text\<rparr>"
    unfolding key by (rule ch)
  have set: "settle p (Inr f) (store s) = w'"
    using cell jobs by (simp add: settle_def w'_def)
  have om: "on_message (JSON_parse rt) x (handle s) (store s) = (h', w', Done)"
    unfolding on_message_own [of "JSON_parse rt" x f "JNum (int n)" "handle s" _ "store s",
        OF parse fid ch']
    by (simp add: resolver_def set h'_def int_dec_int)
  define s1 where "s1 = s\<lparr>handle := h', store := w'\<lparr>jobs := []\<rparr>\<rparr>"
  have st: "step rt (Message k x) s = resume p s1"
    using sock by (simp add: step_Message om run_jobs_def s1_def w'_def)
  have a1: "awaiting s1 p = Some (r, text)" using aw by (simp add: s1_def)
  have c1: "p < length (cells (store s1))" using cell(1) by (simp add: s1_def w'_def)
  have v1: "cells (store s1) ! p = Some (Inr f)" using cell(1) by (simp add: s1_def w'_def)
  note res = resume_User [OF a1 cal c1 v1]
  show "cells (store (step rt (Message k x) s)) = (cells (store s))[p := Some (Inr f)]"
    unfolding st res by (simp add: s1_def w'_def)
  show "jobs (store (step rt (Message k x) s)) = []"
    unfolding st res by (simp add: s1_def w'_def)
  show "channels (handle (step rt (Message k x) s)) = (channels (handle s))(dec n := None)"
    unfolding st res by (simp add: s1_def h'_def)
  show "awaiting (step rt (Message k x) s) = (awaiting s)(p := None)"
    unfolding st res by (simp add: s1_def)
  show "sockets (step rt (Message k x) s) = sockets s"
    unfolding st res by (simp add: s1_def)
qed

subsection \<open>The calls\<close>

lemma caller_of_request_of: "\<exists>po. caller_of (request_of rt t op) = User t po"
  by (cases op) simp_all

lemma call_step_open:
  assumes "ws (handle s) = Some k" and "k < length (sockets s)"
    and "readyState (sockets s ! k) = OPEN"
  shows "step rt (Call t op) s = dispatch (request_of rt t op) s"
  using assms by (simp add: step_Call setup_call_def is_open_def)

lemma calls_phase:
  assumes "ws (handle s) = Some k" and "k < length (sockets s)"
    and "readyState (sockets s ! k) = OPEN"
  shows "cells (store (run rt (map (\<lambda>(t, op). Call t op) calls) s))
           = cells (store s) @ replicate (length calls) None
    \<and> jobs (store (run rt (map (\<lambda>(t, op). Call t op) calls) s)) = jobs (store s)
    \<and> length (sockets (run rt (map (\<lambda>(t, op). Call t op) calls) s)) = length (sockets s)
    \<and> listening (sockets (run rt (map (\<lambda>(t, op). Call t op) calls) s) ! k)
          = listening (sockets s ! k)
    \<and> (\<forall>key. key \<notin> dec ` set (fst (allocate (length calls) (handle s))) \<longrightarrow>
          channels (handle (run rt (map (\<lambda>(t, op). Call t op) calls) s)) key
            = channels (handle s) key)
    \<and> (\<forall>p < length (cells (store s)).
          awaiting (run rt (map (\<lambda>(t, op). Call t op) calls) s) p = awaiting s p)
    \<and> (\<forall>i < length calls.
          fst (allocate (length calls) (handle s)) ! i
            \<notin> set (drop (Suc i) (fst (allocate (length calls) (handle s)))) \<longrightarrow>
          registered (run rt (map (\<lambda>(t, op). Call t op) calls) s)
            (fst (allocate (length calls) (handle s)) ! i) (length (cells (store s)) + i)
            (request_of rt (fst (calls ! i)) (snd (calls ! i))))"
  using assms
proof (induction calls arbitrary: s)
  case Nil
  show ?case by (simp add: run_Nil)
next
  case (Cons call rest)
  obtain t op where call: "call = (t, op)" by (cases call)
  obtain m ps c where req: "request_of rt t op = Request m ps c" by (cases "request_of rt t op")
  define s' where "s' = step rt (Call t op) s"
  define i0 where "i0 = fst (id_getter (handle s))"
  define p0 where "p0 = length (cells (store s))"
  define ids' where "ids' = fst (allocate (length rest) (handle s'))"
  define fin where "fin = run rt (map (\<lambda>(t, op). Call t op) rest) s'"
  have s'_eq: "s' = dispatch (Request m ps c) s"
    unfolding s'_def req [symmetric] by (rule call_step_open [OF Cons.prems])
  note d = dispatch_open [OF Cons.prems, of m ps c, folded s'_eq i0_def p0_def]
  have ws': "ws (handle s') = Some k"
    unfolding s'_eq using Cons.prems(1) by (simp add: dispatch_handle_fields)
  have k': "k < length (sockets s')" using Cons.prems(2) by (simp add: d(1))
  have o': "readyState (sockets s' ! k) = OPEN" using Cons.prems(2,3) by (simp add: d(1))
  have l': "listening (sockets s' ! k) = listening (sockets s ! k)"
    using Cons.prems(2) by (simp add: d(1))
  have len': "length (sockets s') = length (sockets s)" by (simp add: d(1))
  have cells': "cells (store s') = cells (store s) @ [None]" by (simp add: d(5))
  have p0': "length (cells (store s')) = Suc p0" by (simp add: cells' p0_def)
  have jobs': "jobs (store s') = jobs (store s)" by (simp add: d(5))
  have ids: "fst (allocate (length (call # rest)) (handle s)) = i0 # ids'"
  proof -
    have "state (snd (id_getter (handle s))) = state (handle s')" by (simp only: d(6))
    then have "fst (allocate (length rest) (snd (id_getter (handle s)))) = ids'"
      unfolding ids'_def by (rule allocate_state_only)
    moreover have "length (call # rest) = Suc (length rest)" by simp
    ultimately show ?thesis by (simp only: allocate_Suc i0_def)
  qed
  have run: "run rt (map (\<lambda>(t, op). Call t op) (call # rest)) s = fin"
    by (simp add: run_Cons call fin_def s'_def)
  note IH = Cons.IH [OF ws' k' o', folded fin_def ids'_def, unfolded p0']
  from IH have A: "cells (store fin) = cells (store s') @ replicate (length rest) None"
    and B: "jobs (store fin) = jobs (store s')"
    and C: "length (sockets fin) = length (sockets s')"
      "listening (sockets fin ! k) = listening (sockets s' ! k)"
    and E: "\<And>key. key \<notin> dec ` set ids' \<Longrightarrow> channels (handle fin) key = channels (handle s') key"
    and F: "\<And>p. p < Suc p0 \<Longrightarrow> awaiting fin p = awaiting s' p"
    and D: "\<And>i. i < length rest \<Longrightarrow> ids' ! i \<notin> set (drop (Suc i) ids') \<Longrightarrow>
        registered fin (ids' ! i) (Suc p0 + i) (request_of rt (fst (rest ! i)) (snd (rest ! i)))"
    by blast+
  have A2: "cells (store fin) = cells (store s) @ replicate (length (call # rest)) None"
    by (simp add: A cells' replicate_app_Cons_same)
  have E2: "channels (handle fin) key = channels (handle s) key"
    if "key \<notin> dec ` set (i0 # ids')" for key
  proof -
    from that have "key \<noteq> dec i0" and "key \<notin> dec ` set ids'" by auto
    then show ?thesis by (simp add: E d(4))
  qed
  have F2: "awaiting fin p = awaiting s p" if "p < p0" for p
    using that by (simp add: F d(2))
  have D2: "registered fin ((i0 # ids') ! i) (p0 + i)
      (request_of rt (fst ((call # rest) ! i)) (snd ((call # rest) ! i)))"
    if "i < length (call # rest)" and "(i0 # ids') ! i \<notin> set (drop (Suc i) (i0 # ids'))" for i
  proof (cases i)
    case 0
    from that(2) 0 have "i0 \<notin> set ids'" by simp
    then have "dec i0 \<notin> dec ` set ids'" by (auto dest: dec_inj)
    then have ch: "channels (handle fin) (dec i0)
        = Some \<lparr>resolve = resolver p0, reject = rejecter p0, sql = send_sql i0 m ps\<rparr>"
      by (simp add: E d(4))
    have aw: "awaiting fin p0 = Some (Request m ps c, send_sql i0 m ps)"
      by (simp add: F d(2))
    have ce: "p0 < length (cells (store fin))" "cells (store fin) ! p0 = None"
      by (simp_all add: A2 p0_def nth_append)
    show ?thesis
      using ch aw ce by (simp add: 0 registered_def call req)
  next
    case (Suc j)
    with that have "j < length rest" and "ids' ! j \<notin> set (drop (Suc j) ids')" by simp_all
    from D [OF this] show ?thesis by (simp add: Suc)
  qed
  show ?case
    unfolding run ids p0_def [symmetric]
    using A2 B jobs' C len' l' E2 F2 D2 by (simp only: simp_thms) blast
qed

subsection \<open>The responses, in any order\<close>

lemma messages_phase:
  assumes "k < length (sockets s)" and "listening (sockets s ! k)"
    and "jobs (store s) = []"
    and "distinct order" and "inj_on (\<lambda>i. ids ! i) (set order)"
    and "\<forall>i \<in> set order. \<exists>r t po. registered s (ids ! i) (p0 + i) r \<and> caller_of r = User t po"
    and "length texts = length order" and "length frames = length order"
    and "\<forall>j < length order. JSON_parse rt (texts ! j) = Some (frames ! j)
           \<and> get_prop (frames ! j) ''id'' = Inr (JNum (int (ids ! (order ! j))))"
  shows "(\<forall>j < length order.
            cells (store (run rt (map (Message k) texts) s)) ! (p0 + order ! j)
              = Some (Inr (frames ! j)))
    \<and> (\<forall>q. q \<notin> (\<lambda>i. p0 + i) ` set order \<longrightarrow>
            cells (store (run rt (map (Message k) texts) s)) ! q = cells (store s) ! q)
    \<and> length (cells (store (run rt (map (Message k) texts) s))) = length (cells (store s))"
  using assms
proof (induction order arbitrary: s texts frames)
  case Nil
  then show ?case by (simp add: run_Nil)
next
  case (Cons i rest)
  from Cons.prems(7) obtain x xs where texts: "texts = x # xs" by (cases texts) simp_all
  from Cons.prems(8) obtain f fs where frames: "frames = f # fs" by (cases frames) simp_all
  define s' where "s' = step rt (Message k x) s"
  define fin where "fin = run rt (map (Message k) xs) s'"
  have run: "run rt (map (Message k) texts) s = fin"
    by (simp add: texts run_Cons fin_def s'_def)
  from Cons.prems(9) have head: "JSON_parse rt x = Some f"
      "get_prop f ''id'' = Inr (JNum (int (ids ! i)))"
    by (auto simp: texts frames)
  from Cons.prems(6) obtain r t po sent where
    ch: "channels (handle s) (dec (ids ! i)) =
           Some \<lparr>resolve = resolver (p0 + i), reject = rejecter (p0 + i), sql = sent\<rparr>"
    and aw: "awaiting s (p0 + i) = Some (r, sent)"
    and ce: "p0 + i < length (cells (store s))" "cells (store s) ! (p0 + i) = None"
    and cal: "caller_of r = User t po"
    by (auto simp: registered_def)
  note m = message_step [OF Cons.prems(1,2,3) head ch aw cal ce, folded s'_def]
  have sock': "k < length (sockets s')" "listening (sockets s' ! k)"
    using Cons.prems(1,2) by (simp_all add: m(5))
  have dist': "distinct rest" and fresh: "i \<notin> set rest" using Cons.prems(4) by simp_all
  have inj': "inj_on (\<lambda>i. ids ! i) (set rest)"
    using Cons.prems(5) by (rule inj_on_subset) auto
  have pend': "\<forall>j \<in> set rest. \<exists>r t po. registered s' (ids ! j) (p0 + j) r \<and> caller_of r = User t po"
  proof
    fix j
    assume j: "j \<in> set rest"
    with fresh have ne: "j \<noteq> i" by auto
    have "ids ! j \<noteq> ids ! i"
      using Cons.prems(5) j ne by (auto simp: inj_on_def)
    then have key: "dec (ids ! j) \<noteq> dec (ids ! i)" by (auto dest: dec_inj)
    from Cons.prems(6) j obtain r' t' po' where
      reg: "registered s (ids ! j) (p0 + j) r'" and cal': "caller_of r' = User t' po'"
      by auto
    have "registered s' (ids ! j) (p0 + j) r'"
      using reg key ne by (auto simp: registered_def m(1,3,4))
    with cal' show "\<exists>r t po. registered s' (ids ! j) (p0 + j) r \<and> caller_of r = User t po"
      by blast
  qed
  have len': "length xs = length rest" "length fs = length rest"
    using Cons.prems(7,8) by (simp_all add: texts frames)
  have fr': "\<forall>j < length rest. JSON_parse rt (xs ! j) = Some (fs ! j)
      \<and> get_prop (fs ! j) ''id'' = Inr (JNum (int (ids ! (rest ! j))))"
  proof (intro allI impI)
    fix j
    assume "j < length rest"
    then have "Suc j < length (i # rest)" by simp
    with Cons.prems(9) show "JSON_parse rt (xs ! j) = Some (fs ! j)
        \<and> get_prop (fs ! j) ''id'' = Inr (JNum (int (ids ! (rest ! j))))"
      unfolding texts frames by (metis nth_Cons_Suc)
  qed
  note IH = Cons.IH [OF sock' m(2) dist' inj' pend' len' fr', folded fin_def]
  from IH have answered: "\<And>j. j < length rest \<Longrightarrow>
        cells (store fin) ! (p0 + rest ! j) = Some (Inr (fs ! j))"
    and frame: "\<And>q. q \<notin> (\<lambda>i. p0 + i) ` set rest \<Longrightarrow> cells (store fin) ! q = cells (store s') ! q"
    and len: "length (cells (store fin)) = length (cells (store s'))"
    by blast+
  have first: "cells (store fin) ! (p0 + i) = Some (Inr f)"
  proof -
    have "p0 + i \<notin> (\<lambda>i. p0 + i) ` set rest" using fresh by auto
    then have "cells (store fin) ! (p0 + i) = cells (store s') ! (p0 + i)" by (rule frame)
    also have "\<dots> = Some (Inr f)" using ce(1) by (simp add: m(1))
    finally show ?thesis .
  qed
  have all: "cells (store fin) ! (p0 + (i # rest) ! j) = Some (Inr (frames ! j))"
    if "j < length (i # rest)" for j
  proof (cases j)
    case 0
    then show ?thesis by (simp add: first frames)
  next
    case (Suc j')
    with that have "j' < length rest" by simp
    from answered [OF this] show ?thesis by (simp add: Suc frames)
  qed
  have others: "cells (store fin) ! q = cells (store s) ! q"
    if "q \<notin> (\<lambda>i. p0 + i) ` set (i # rest)" for q
  proof -
    from that have a: "q \<noteq> p0 + i" and b: "q \<notin> (\<lambda>i. p0 + i) ` set rest" by auto
    have "cells (store fin) ! q = cells (store s') ! q" by (rule frame [OF b])
    also have "\<dots> = cells (store s) ! q" using a by (simp add: m(1))
    finally show ?thesis .
  qed
  have "length (cells (store fin)) = length (cells (store s))" by (simp add: len m(1))
  with all others show ?case unfolding run by blast
qed

text \<open>
  A burst. On a connected handle, take at most 1001 operations started one after the other
  and then their response frames in any order: \<open>order ! j\<close> is the call that the
  \<open>j\<close>-th frame answers, by carrying that call's id. After the calls every one of them
  is outstanding with its own id on its own promise (the promise \<open>i\<close> places after those
  that existed), and after the frames the promise of each call is fulfilled with exactly
  the frame that carries its id.
\<close>

theorem every_response_reaches_its_call:
  assumes "connected k s"
    and "length calls \<le> 1001"
    and "distinct order" and "set order = {0..<length calls}"
    and "length texts = length calls" and "length frames = length calls"
    and "\<forall>j < length calls. JSON_parse rt (texts ! j) = Some (frames ! j)
           \<and> get_prop (frames ! j) ''id''
               = Inr (JNum (int (fst (allocate (length calls) (handle s)) ! (order ! j))))"
  shows "(\<forall>i < length calls.
            registered (run rt (map (\<lambda>(t, op). Call t op) calls) s)
              (fst (allocate (length calls) (handle s)) ! i) (length (cells (store s)) + i)
              (request_of rt (fst (calls ! i)) (snd (calls ! i))))
    \<and> (\<forall>j < length calls.
            cells (store (run rt (map (\<lambda>(t, op). Call t op) calls @ map (Message k) texts) s))
              ! (length (cells (store s)) + order ! j)
            = Some (Inr (frames ! j)))"
proof -
  define ids where "ids = fst (allocate (length calls) (handle s))"
  define p0 where "p0 = length (cells (store s))"
  define s1 where "s1 = run rt (map (\<lambda>(t, op). Call t op) calls) s"
  have c: "ws (handle s) = Some k" "k < length (sockets s)" "readyState (sockets s ! k) = OPEN"
    "listening (sockets s ! k)" "jobs (store s) = []"
    using assms(1) by (simp_all add: connected_def)
  have dist: "distinct ids" unfolding ids_def by (rule allocate_distinct [OF assms(2)])
  have lids: "length ids = length calls" unfolding ids_def by (rule allocate_length)
  note ph = calls_phase [OF c(1-3), of rt calls, folded s1_def ids_def p0_def]
  have later: "ids ! i \<notin> set (drop (Suc i) ids)" if "i < length calls" for i
  proof
    assume "ids ! i \<in> set (drop (Suc i) ids)"
    then obtain j where j: "j < length (drop (Suc i) ids)" and e: "drop (Suc i) ids ! j = ids ! i"
      by (auto simp: in_set_conv_nth)
    then have "Suc i + j < length ids" and "ids ! (Suc i + j) = ids ! i" by simp_all
    with dist that lids have "Suc i + j = i" by (simp add: nth_eq_iff_index_eq)
    then show False by simp
  qed
  have reg: "registered s1 (ids ! i) (p0 + i) (request_of rt (fst (calls ! i)) (snd (calls ! i)))"
    if "i < length calls" for i
    using ph that later [OF that] by blast
  have lo: "length order = length calls"
  proof -
    have "length order = card (set order)" using assms(3) by (simp add: distinct_card)
    then show ?thesis by (simp add: assms(4))
  qed
  have sock1: "k < length (sockets s1)" "listening (sockets s1 ! k)" "jobs (store s1) = []"
    using ph c by simp_all
  have inj: "inj_on (\<lambda>i. ids ! i) (set order)"
    unfolding assms(4) using dist lids by (auto simp: inj_on_def nth_eq_iff_index_eq)
  have pend: "\<forall>i \<in> set order. \<exists>r t po. registered s1 (ids ! i) (p0 + i) r \<and> caller_of r = User t po"
  proof
    fix i
    assume "i \<in> set order"
    then have i: "i < length calls" by (simp add: assms(4))
    from caller_of_request_of [of rt "fst (calls ! i)" "snd (calls ! i)"] reg [OF i]
    show "\<exists>r t po. registered s1 (ids ! i) (p0 + i) r \<and> caller_of r = User t po" by blast
  qed
  have fr: "\<forall>j < length order. JSON_parse rt (texts ! j) = Some (frames ! j)
      \<and> get_prop (frames ! j) ''id'' = Inr (JNum (int (ids ! (order ! j))))"
    using assms(7) by (simp add: lo ids_def)
  have tl: "length texts = length order" "length frames = length order"
    using assms(5,6) by (simp_all add: lo)
  from messages_phase [OF sock1 assms(3) inj pend tl fr]
  have "\<forall>j < length calls.
      cells (store (run rt (map (Message k) texts) s1)) ! (p0 + order ! j) = Some (Inr (frames ! j))"
    by (simp add: lo)
  then have "\<forall>j < length calls.
      cells (store (run rt (map (\<lambda>(t, op). Call t op) calls @ map (Message k) texts) s))
        ! (p0 + order ! j) = Some (Inr (frames ! j))"
    by (simp only: run_append s1_def)
  with reg show ?thesis
    unfolding ids_def p0_def s1_def by blast
qed

theorem every_response_reaches_its_call_witness:
  "cells (store (run
      (example_runtime
         [(''r2'', JObj [(''id'', JNum 2), (''result'', JStr ''two'')]),
          (''r1'', JObj [(''id'', JNum 1), (''result'', JStr ''one'')])])
      ([Call 1 (Send ''a'' None), Call 2 (Send ''b'' None)] @ [Message 0 ''r2'', Message 0 ''r1''])
      (run (example_runtime []) [Call 0 (Send ''info'' None), Open 0] (init None None)))) ! 2
     = Some (Inr (JObj [(''id'', JNum 2), (''result'', JStr ''two'')]))
   \<and> cells (store (run
      (example_runtime
         [(''r2'', JObj [(''id'', JNum 2), (''result'', JStr ''two'')]),
          (''r1'', JObj [(''id'', JNum 1), (''result'', JStr ''one'')])])
      ([Call 1 (Send ''a'' None), Call 2 (Send ''b'' None)] @ [Message 0 ''r2'', Message 0 ''r1''])
      (run (example_runtime []) [Call 0 (Send ''info'' None), Open 0] (init None None)))) ! 1
     = Some (Inr (JObj [(''id'', JNum 1), (''result'', JStr ''one'')]))"
proof -
  let ?f1 = "JObj [(''id'', JNum 1), (''result'', JStr ''one'')]"
  let ?f2 = "JObj [(''id'', JNum 2), (''result'', JStr ''two'')]"
  let ?rt = "example_runtime [(''r2'', ?f2), (''r1'', ?f1)]"
  let ?s = "run (example_runtime []) [Call 0 (Send ''info'' None), Open 0] (init None None)"
  let ?calls = "[(1::nat, Send ''a'' None), (2::nat, Send ''b'' None)]"
  have a: "connected 0 ?s" by (simp add: connected_def event_loop_defs)
  have b: "length ?calls \<le> 1001" by simp
  have c: "distinct [Suc 0, 0]" by simp
  have d: "set [Suc 0, 0] = {0..<length ?calls}" by auto
  have e: "length [''r2'', ''r1''] = length ?calls" "length [?f2, ?f1] = length ?calls"
    by simp_all
  have st: "state (handle ?s) = 1" by (simp add: event_loop_defs)
  have le: "state (handle ?s) \<le> 1001" by (simp only: st)
  have two: "length ?calls = Suc (Suc 0)" by simp
  have ids: "fst (allocate (length ?calls) (handle ?s)) = [1, 2]"
    unfolding two allocate_ids [OF le] st by (simp add: upt_conv_Cons)
  have f: "\<forall>j < length ?calls. JSON_parse ?rt ([''r2'', ''r1''] ! j) = Some ([?f2, ?f1] ! j)
      \<and> get_prop ([?f2, ?f1] ! j) ''id''
          = Inr (JNum (int (fst (allocate (length ?calls) (handle ?s)) ! ([Suc 0, 0] ! j))))"
    unfolding ids unfolding two by (simp add: All_less_Suc example_runtime_def field_def)
  have p0: "length (cells (store ?s)) = 1" by (simp add: event_loop_defs)
  have "\<forall>j < length ?calls.
      cells (store (run ?rt (map (\<lambda>(t, op). Call t op) ?calls @ map (Message 0) [''r2'', ''r1'']) ?s))
        ! (length (cells (store ?s)) + [Suc 0, 0] ! j) = Some (Inr ([?f2, ?f1] ! j))"
    by (rule conjunct2 [OF every_response_reaches_its_call [OF a b c d e f]])
  then have "cells (store (run ?rt (map (\<lambda>(t, op). Call t op) ?calls @ map (Message 0) [''r2'', ''r1'']) ?s))
        ! (1 + [Suc 0, 0] ! 0) = Some (Inr ([?f2, ?f1] ! 0))
      \<and> cells (store (run ?rt (map (\<lambda>(t, op). Call t op) ?calls @ map (Message 0) [''r2'', ''r1'']) ?s))
        ! (1 + [Suc 0, 0] ! Suc 0) = Some (Inr ([?f2, ?f1] ! Suc 0))"
    unfolding p0 two by (simp only: All_less_Suc)
  then show ?thesis
    by (simp add: numeral_2_eq_2)
qed

section \<open>Between tasks no promise job is left\<close>

lemma jobs_dispatch: "jobs (store (dispatch r s)) = jobs (store s)"
  by (cases r) (simp add: dispatch_eq Let_def throw_to_fields split: sum.splits)

lemma jobs_return_to: "jobs (store (return_to c v s)) = jobs (store s)"
proof (cases c)
  case (User t po)
  then show ?thesis by (simp add: return_to_User_fields)
next
  case (Setup r)
  then show ?thesis by (simp add: jobs_dispatch)
qed

lemma jobs_resume: "jobs (store (resume p s)) = jobs (store s)"
  by (simp add: resume_def Let_def throw_to_fields jobs_return_to
        split: option.splits prod.splits sum.splits)

lemma jobs_fold_resume: "jobs (store (fold resume ps s)) = jobs (store s)"
  by (induction ps arbitrary: s) (simp_all add: jobs_resume)

lemma jobs_run_jobs: "jobs (store (run_jobs s)) = []"
  by (simp add: run_jobs_def jobs_fold_resume)

lemma jobs_setup_call: "jobs (store (setup_call r s)) = jobs (store s)"
  by (simp add: setup_call_def jobs_dispatch createWebSocket_def)

lemma jobs_setup_opened: "jobs (store (setup_opened k r s)) = jobs (store s)"
  by (simp add: setup_opened_def use_def send_def jobs_setup_call jobs_dispatch Let_def
        split: option.splits)

lemma jobs_connect_failed: "jobs (store (connect_failed k key ev s)) = jobs (store s)"
  by (simp add: connect_failed_def throw_to_fields split: option.splits)

lemma jobs_step: "jobs (store s) = [] \<Longrightarrow> jobs (store (step rt ev s)) = []"
proof (cases ev)
  case (Call t op)
  assume "jobs (store s) = []"
  then show ?thesis by (simp add: Call step_Call jobs_setup_call)
next
  case (Open k)
  assume "jobs (store s) = []"
  then show ?thesis
    by (simp add: Open step_Open Let_def jobs_setup_opened set_readyState_def
          split: option.splits)
next
  case (Error k e)
  assume "jobs (store s) = []"
  then show ?thesis by (simp add: Error step_def jobs_connect_failed)
next
  case (Close k e)
  assume "jobs (store s) = []"
  then show ?thesis by (simp add: Close step_def jobs_connect_failed set_readyState_def)
next
  case (Message k data)
  assume "jobs (store s) = []"
  then show ?thesis
    by (simp add: Message step_Message jobs_run_jobs split: prod.splits)
next
  case CloseCall
  assume "jobs (store s) = []"
  then show ?thesis by (simp add: CloseCall step_def set_readyState_def split: option.splits)
qed

lemma jobs_run: "jobs (store s) = [] \<Longrightarrow> jobs (store (run rt evs s)) = []"
  by (induction evs arbitrary: s) (simp_all add: run_Nil run_Cons jobs_step)

lemma jobs_reachable: "jobs (store (run rt evs (init ns db))) = []"
  by (rule jobs_run) (simp add: init_def)

section \<open>A frame for an id that has no entry\<close>

lemma on_message_orphan:
  assumes "parse data = Some app" and "get_prop app ''id'' = Inr i"
    and "channels h (to_string i) = None" and "to_string i \<notin> set object_prototype"
  shows "on_message parse data h w = (h, w, Warned (to_string i))"
  using assms by (simp add: on_message_def channel_at_def)

section \<open>Further properties\<close>

text \<open>
  A frame whose id has no entry (and is not the name of an inherited property): the
  listener warns (line 85) and returns; no entry is called or removed, no promise is
  settled, no operation ends and the sockets stay as they are.
\<close>

theorem orphan_frame_only_warns:
  assumes "connected k s"
    and "JSON_parse rt data = Some app" and "get_prop app ''id'' = Inr i"
    and "channels (handle s) (to_string i) = None" and "to_string i \<notin> set object_prototype"
  shows "step rt (Message k data) s = s\<lparr>console := console s @ [Warned (to_string i)]\<rparr>"
  using assms
  by (simp add: connected_def step_Message on_message_orphan run_jobs_none)

theorem orphan_frame_only_warns_witness:
  "step (example_runtime [(''late'', JObj [(''id'', JNum 5), (''result'', JNull)])])
     (Message 0 ''late'')
     (run (example_runtime []) [Call 0 (Send ''info'' None), Open 0] (init None None))
   = (run (example_runtime []) [Call 0 (Send ''info'' None), Open 0] (init None None))
       \<lparr>console := [Warned ''5'']\<rparr>"
proof -
  let ?s = "run (example_runtime []) [Call 0 (Send ''info'' None), Open 0] (init None None)"
  let ?rt = "example_runtime [(''late'', JObj [(''id'', JNum 5), (''result'', JNull)])]"
  have five: "int_dec 5 = ''5''" by (simp add: int_dec_def dec.simps digit_char_def)
  have zero: "dec 0 = ''0''" by (simp add: dec.simps digit_char_def)
  have a: "connected 0 ?s" by (simp add: connected_def event_loop_defs)
  have b: "JSON_parse ?rt ''late'' = Some (JObj [(''id'', JNum 5), (''result'', JNull)])"
    by (simp add: example_runtime_def)
  have c: "get_prop (JObj [(''id'', JNum 5), (''result'', JNull)]) ''id'' = Inr (JNum 5)"
    by (simp add: field_def)
  have d: "channels (handle ?s) (to_string (JNum 5)) = None"
    by (simp add: event_loop_defs five zero)
  have e: "to_string (JNum 5) \<notin> set object_prototype"
    by (simp add: five object_prototype_def)
  have f: "console ?s = []" by (simp add: event_loop_defs)
  show ?thesis
    using orphan_frame_only_warns [OF a b c d e] by (simp add: f five)
qed

text \<open>
  The ids of up to 1001 successive allocations are pairwise different, whatever the
  counter was.
\<close>

theorem ids_of_a_cycle_are_distinct: "n \<le> 1001 \<Longrightarrow> distinct (fst (allocate n h))"
  by (rule allocate_distinct)

theorem ids_of_a_cycle_are_distinct_witness:
  "distinct (fst (allocate (Suc (Suc 0)) (new_Surreal None None :: unit surreal)))"
proof -
  have "Suc (Suc 0) \<le> 1001" by simp
  then show ?thesis by (rule ids_of_a_cycle_are_distinct)
qed

text \<open>
  Lines 210-223 of \<^verbatim>\<open>query\<close> on a value whose \<^verbatim>\<open>result\<close> property is the array of the
  statements' outcomes (objects): with no outcome of status \<^verbatim>\<open>ERR\<close> the value is the
  array of their results in order; with one or more it throws a \<^verbatim>\<open>SurrealError\<close> whose
  message joins the results of the failed outcomes with \<^verbatim>\<open>;\<close> and whose detail holds the
  request text under \<^verbatim>\<open>sql\<close>.
\<close>

theorem query_normalizes_nested_outcomes:
  assumes "field rs ''result'' = JArr (map JObj fss)"
  shows "query_result qtext (JObj rs) =
     (if \<exists>fs \<in> set fss. field fs ''status'' = JStr ''ERR''
      then Inl (SurrealError
             (JStr (array_join '';''
                (map (\<lambda>fs. field fs ''result'')
                   (filter (\<lambda>fs. field fs ''status'' = JStr ''ERR'') fss))))
             (DVal (JObj [(''sql'', JStr qtext)])))
      else Inr (JArr (map (\<lambda>fs. field fs ''result'') fss)))"
proof (cases "\<exists>fs \<in> set fss. field fs ''status'' = JStr ''ERR''")
  case True
  from query_result_nested_err [OF assms True] True show ?thesis by simp
next
  case False
  then have "\<forall>fs \<in> set fss. field fs ''status'' \<noteq> JStr ''ERR''" by simp
  from query_result_nested_ok [OF assms this] False show ?thesis by simp
qed

theorem query_normalizes_nested_outcomes_witness:
  "query_result ''q''
     (JObj [(''result'', JArr [JObj [(''status'', JStr ''OK''), (''result'', JNum 1)],
                                JObj [(''status'', JStr ''ERR''), (''result'', JStr ''bad'')],
                                JObj [(''status'', JStr ''ERR''), (''result'', JStr ''worse'')]])])
   = Inl (SurrealError (JStr ''bad;worse'') (DVal (JObj [(''sql'', JStr ''q'')])))
   \<and> query_result ''q''
     (JObj [(''result'', JArr [JObj [(''status'', JStr ''OK''), (''result'', JNum 1)]])])
   = Inr (JArr [JNum 1])"
proof -
  have a: "field [(''result'', JArr (map JObj
        [[(''status'', JStr ''OK''), (''result'', JNum 1)],
         [(''status'', JStr ''ERR''), (''result'', JStr ''bad'')],
         [(''status'', JStr ''ERR''), (''result'', JStr ''worse'')]]))] ''result''
      = JArr (map JObj
        [[(''status'', JStr ''OK''), (''result'', JNum 1)],
         [(''status'', JStr ''ERR''), (''result'', JStr ''bad'')],
         [(''status'', JStr ''ERR''), (''result'', JStr ''worse'')]])"
    by (simp add: field_def)
  have b: "field [(''result'', JArr (map JObj [[(''status'', JStr ''OK''), (''result'', JNum 1)]]))]
        ''result''
      = JArr (map JObj [[(''status'', JStr ''OK''), (''result'', JNum 1)]])"
    by (simp add: field_def)
  show ?thesis
    using query_normalizes_nested_outcomes [OF a, of "''q''"]
      query_normalizes_nested_outcomes [OF b, of "''q''"]
    by (simp add: field_def array_join_def)
qed

section \<open>One outstanding call among other calls and frames\<close>


lemma resume_users:
  assumes "users_only s"
  shows "handle (resume q s) = handle s"
    and "sockets (resume q s) = sockets s"
    and "store (resume q s) = store s"
    and "awaiting (resume q s) = awaiting s \<or> awaiting (resume q s) = (awaiting s)(q := None)"
proof -
  have "handle (resume q s) = handle s \<and> sockets (resume q s) = sockets s
      \<and> store (resume q s) = store s
      \<and> (awaiting (resume q s) = awaiting s \<or> awaiting (resume q s) = (awaiting s)(q := None))"
  proof (cases "awaiting s q")
    case None
    then show ?thesis by (simp add: resume_def)
  next
    case (Some a)
    obtain r' x' where a: "a = (r', x')" by (cases a)
    from assms Some a obtain t po where cal: "caller_of r' = User t po"
      unfolding users_only_def by blast
    have aw: "awaiting s q = Some (r', x')" using Some a by simp
    show ?thesis
    proof (cases "q < length (cells (store s))")
      case False
      then show ?thesis using aw by (simp add: resume_def)
    next
      case True
      show ?thesis
      proof (cases "cells (store s) ! q")
        case None
        then show ?thesis using aw True by (simp add: resume_def)
      next
        case (Some res)
        from resume_User [OF aw cal True Some] show ?thesis by simp
      qed
    qed
  qed
  then show "handle (resume q s) = handle s"
    and "sockets (resume q s) = sockets s"
    and "store (resume q s) = store s"
    and "awaiting (resume q s) = awaiting s \<or> awaiting (resume q s) = (awaiting s)(q := None)"
    by simp_all
qed

lemma on_message_cases:
  "(\<exists>out. on_message parse x h w = (h, w, out) \<and> out \<noteq> Done)
   \<or> (\<exists>app v c. parse x = Some app \<and> get_prop app ''id'' = Inr v
         \<and> channels h (to_string v) = Some c)"
  by (simp add: on_message_def channel_at_def split: option.splits sum.splits)













section \<open>An id that comes round while its call is outstanding\<close>














section \<open>What every reachable state satisfies\<close>

subsection \<open>The table holds promise functions\<close>

lemma promise_table_cong:
  assumes "channels (handle s') = channels (handle s)"
    and "length (cells (store s')) = length (cells (store s))"
  shows "promise_table s' = promise_table s"
  by (simp add: promise_table_def assms)

lemma dispatch_table:
  "channels (handle (dispatch (Request m ps c) s)) =
     (channels (handle s))(dec (fst (id_getter (handle s))) \<mapsto>
        \<lparr>resolve = resolver (length (cells (store s))),
         reject = rejecter (length (cells (store s))),
         sql = send_sql (fst (id_getter (handle s))) m ps\<rparr>)"
  "cells (store (dispatch (Request m ps c) s)) = cells (store s) @ [None]"
  by (simp_all add: dispatch_eq Let_def throw_to_fields split: sum.splits)

lemma promise_table_dispatch:
  assumes "promise_table s"
  shows "promise_table (dispatch r s)"
proof -
  obtain m ps c where r: "r = Request m ps c" by (cases r)
  show ?thesis
    unfolding promise_table_def r
  proof (intro allI impI)
    fix key ch
    assume e: "channels (handle (dispatch (Request m ps c) s)) key = Some ch"
    show "\<exists>q < length (cells (store (dispatch (Request m ps c) s))).
        resolve ch = resolver q \<and> reject ch = rejecter q"
    proof (cases "key = dec (fst (id_getter (handle s)))")
      case True
      with e have "resolve ch = resolver (length (cells (store s)))
          \<and> reject ch = rejecter (length (cells (store s)))"
        by (auto simp: dispatch_table(1))
      then show ?thesis
        by (intro exI [of _ "length (cells (store s))"]) (simp add: dispatch_table(2))
    next
      case False
      with e have "channels (handle s) key = Some ch" by (simp add: dispatch_table(1))
      with assms obtain q where "q < length (cells (store s))"
        "resolve ch = resolver q \<and> reject ch = rejecter q"
        unfolding promise_table_def by blast
      then show ?thesis by (intro exI [of _ q]) (simp add: dispatch_table(2))
    qed
  qed
qed

lemma promise_table_throw_to: "promise_table (throw_to c e s) = promise_table s"
  by (rule promise_table_cong) (simp_all add: throw_to_fields)

lemma promise_table_return_to: "promise_table s \<Longrightarrow> promise_table (return_to c v s)"
proof (cases c)
  case (User t po)
  assume "promise_table s"
  moreover have "promise_table (return_to (User t po) v s) = promise_table s"
    by (rule promise_table_cong) (simp_all add: return_to_User_fields)
  ultimately show ?thesis using User by simp
next
  case (Setup r)
  assume "promise_table s"
  then show ?thesis using Setup by (simp add: promise_table_dispatch)
qed

lemma promise_table_awaiting: "promise_table (s\<lparr>awaiting := a\<rparr>) = promise_table s"
  by (rule promise_table_cong) simp_all

lemma promise_table_resume: "promise_table s \<Longrightarrow> promise_table (resume p s)"
  by (auto simp: resume_def Let_def promise_table_throw_to promise_table_awaiting
           intro!: promise_table_return_to
           split: option.splits prod.splits sum.splits)

lemma promise_table_fold_resume: "promise_table s \<Longrightarrow> promise_table (fold resume ps s)"
  by (induction ps arbitrary: s) (simp_all add: promise_table_resume)

lemma promise_table_message:
  assumes "promise_table s"
  shows "promise_table (step rt (Message k x) s)"
proof (cases "k < length (sockets s) \<and> listening (sockets s ! k)")
  case False
  then have "step rt (Message k x) s = s" by (auto simp: step_Message)
  with assms show ?thesis by simp
next
  case True
  obtain h w out where m: "on_message (JSON_parse rt) x (handle s) (store s) = (h, w, out)"
    by (cases "on_message (JSON_parse rt) x (handle s) (store s)")
  define s1 where "s1 = s\<lparr>handle := h, store := w,
      console := console s @ (if out = Done then [] else [out])\<rparr>"
  have st: "step rt (Message k x) s = run_jobs s1"
    using True by (simp add: step_Message m s1_def)
  have sub: "\<And>key c. channels h key = Some c \<Longrightarrow> channels (handle s) key = Some c"
    and len: "length (cells w) = length (cells (store s))"
  proof -
    from on_message_cases [of "JSON_parse rt" x "handle s" "store s"]
    have "(\<forall>key c. channels h key = Some c \<longrightarrow> channels (handle s) key = Some c)
        \<and> length (cells w) = length (cells (store s))"
    proof (elim disjE exE conjE)
      fix out'
      assume "on_message (JSON_parse rt) x (handle s) (store s) = (handle s, store s, out')"
      with m show ?thesis by simp
    next
      fix app v c
      assume parse: "JSON_parse rt x = Some app" and fid: "get_prop app ''id'' = Inr v"
        and ch: "channels (handle s) (to_string v) = Some c"
      from assms ch obtain q where rc: "resolve c = resolver q"
        unfolding promise_table_def by blast
      have "on_message (JSON_parse rt) x (handle s) (store s)
          = ((handle s)\<lparr>channels := (channels (handle s))(to_string v := None)\<rparr>,
             settle q (Inr app) (store s), Done)"
        unfolding on_message_own [of "JSON_parse rt" x app v "handle s" c "store s",
            OF parse fid ch]
        by (simp add: rc resolver_def)
      with m have "h = (handle s)\<lparr>channels := (channels (handle s))(to_string v := None)\<rparr>"
        and "w = settle q (Inr app) (store s)" by simp_all
      then show ?thesis by (simp add: settle_def split: if_splits)
    qed
    then show "\<And>key c. channels h key = Some c \<Longrightarrow> channels (handle s) key = Some c"
      and "length (cells w) = length (cells (store s))" by blast+
  qed
  have "promise_table (s1\<lparr>store := (store s1)\<lparr>jobs := []\<rparr>\<rparr>)"
    unfolding promise_table_def
  proof (intro allI impI)
    fix key c
    assume "channels (handle (s1\<lparr>store := (store s1)\<lparr>jobs := []\<rparr>\<rparr>)) key = Some c"
    then have "channels (handle s) key = Some c" by (simp add: s1_def sub)
    with assms obtain q where "q < length (cells (store s))"
      "resolve c = resolver q \<and> reject c = rejecter q"
      unfolding promise_table_def by blast
    then show "\<exists>q < length (cells (store (s1\<lparr>store := (store s1)\<lparr>jobs := []\<rparr>\<rparr>))).
        resolve c = resolver q \<and> reject c = rejecter q"
      by (intro exI [of _ q]) (simp add: s1_def len)
  qed
  then show ?thesis
    unfolding st run_jobs_def by (rule promise_table_fold_resume)
qed

lemma promise_table_setup_call: "promise_table s \<Longrightarrow> promise_table (setup_call r s)"
proof -
  assume a: "promise_table s"
  have "promise_table (createWebSocket r s) = promise_table s"
    by (rule promise_table_cong) (simp_all add: createWebSocket_def)
  with a show ?thesis by (simp add: setup_call_def promise_table_dispatch)
qed

lemma promise_table_setup_opened:
  assumes "promise_table s"
  shows "promise_table (setup_opened k r s)"
proof -
  define s1 where "s1 = s\<lparr>handle := (handle s)\<lparr>ws := Some k\<rparr>,
      sockets := (sockets s)[k := (sockets s ! k)\<lparr>listening := True\<rparr>]\<rparr>"
  have "promise_table s1 = promise_table s"
    by (rule promise_table_cong) (simp_all add: s1_def)
  with assms have p1: "promise_table s1" by simp
  have "setup_opened k r s = dispatch r s1
      \<or> (\<exists>ns db. setup_opened k r s = setup_call (Request ''use'' (Some (use_params ns db)) (Setup r)) s1)"
    by (auto simp: setup_opened_def Let_def s1_def use_def send_def split: option.splits)
  then show ?thesis
    using p1 by (auto simp: promise_table_dispatch promise_table_setup_call)
qed

lemma promise_table_set_readyState: "promise_table (set_readyState k rs s) = promise_table s"
  by (rule promise_table_cong) (simp_all add: set_readyState_def)

lemma promise_table_connecting: "promise_table (s\<lparr>connecting := a\<rparr>) = promise_table s"
  by (rule promise_table_cong) simp_all

lemma promise_table_connect_failed:
  "promise_table (connect_failed k key ev s) = promise_table s"
  by (simp add: connect_failed_def promise_table_throw_to promise_table_connecting
        split: option.splits)

lemma promise_table_step:
  assumes "promise_table s"
  shows "promise_table (step rt ev s)"
proof (cases ev)
  case (Call t op)
  then show ?thesis using assms by (simp add: step_Call promise_table_setup_call)
next
  case (Open k)
  then show ?thesis
    using assms
    by (simp add: step_Open Let_def promise_table_set_readyState promise_table_setup_opened
          promise_table_connecting split: option.splits)
next
  case (Error k e)
  then show ?thesis using assms by (simp add: step_def promise_table_connect_failed)
next
  case (Close k e)
  then show ?thesis
    using assms
    by (simp add: step_def promise_table_connect_failed promise_table_set_readyState)
next
  case (Message k x)
  then show ?thesis using assms by (simp add: promise_table_message)
next
  case CloseCall
  then show ?thesis
    using assms by (simp add: step_def promise_table_set_readyState split: option.splits)
qed

lemma promise_table_reachable: "promise_table (run rt evs (init ns db))"
proof -
  have "promise_table s \<Longrightarrow> promise_table (run rt evs s)" for s
    by (induction evs arbitrary: s) (simp_all add: run_Nil run_Cons promise_table_step)
  moreover have "promise_table (init ns db)"
    by (simp add: promise_table_def init_def new_Surreal_def)
  ultimately show ?thesis .
qed

subsection \<open>Without a namespace or a database, only operations wait\<close>

lemma unscoped_cong:
  assumes "opt_ns (handle s') = opt_ns (handle s)" and "opt_db (handle s') = opt_db (handle s)"
    and "awaiting s' = awaiting s" and "connecting s' = connecting s"
  shows "unscoped s' = unscoped s"
  by (simp add: unscoped_def users_only_def assms)

lemma users_only_sub:
  assumes "users_only s"
    and "\<And>p r x. awaiting s' p = Some (r, x) \<Longrightarrow>
           awaiting s p = Some (r, x) \<or> (\<exists>t po. caller_of r = User t po)"
  shows "users_only s'"
  unfolding users_only_def
proof (intro allI impI)
  fix p r x
  assume "awaiting s' p = Some (r, x)"
  from assms(2) [OF this] show "\<exists>t po. caller_of r = User t po"
  proof
    assume "awaiting s p = Some (r, x)"
    with assms(1) show ?thesis unfolding users_only_def by blast
  qed
qed

lemma dispatch_awaiting:
  "awaiting (dispatch r s) = awaiting s
   \<or> (\<exists>p sent. awaiting (dispatch r s) = (awaiting s)(p \<mapsto> (r, sent)))"
  "connecting (dispatch r s) = connecting s"
proof -
  obtain m ps c where r: "r = Request m ps c" by (cases r)
  have "(awaiting (dispatch r s) = awaiting s
      \<or> (\<exists>p sent. awaiting (dispatch r s) = (awaiting s)(p \<mapsto> (r, sent))))
      \<and> connecting (dispatch r s) = connecting s"
  proof (cases "ws_send (ws (handle s)) (send_sql (fst (id_getter (handle s))) m ps) (sockets s)")
    case (Inl e)
    then have "awaiting (dispatch r s) = awaiting s" and "connecting (dispatch r s) = connecting s"
      by (simp_all add: r dispatch_eq Let_def throw_to_fields)
    then show ?thesis by simp
  next
    case (Inr socks)
    then have "awaiting (dispatch r s) = (awaiting s)(length (cells (store s)) \<mapsto>
        (r, send_sql (fst (id_getter (handle s))) m ps))"
      and "connecting (dispatch r s) = connecting s"
      by (simp_all add: r dispatch_eq Let_def)
    then show ?thesis by blast
  qed
  then show "awaiting (dispatch r s) = awaiting s
      \<or> (\<exists>p sent. awaiting (dispatch r s) = (awaiting s)(p \<mapsto> (r, sent)))"
    and "connecting (dispatch r s) = connecting s"
    by blast+
qed

lemma unscoped_dispatch:
  assumes "unscoped s" and "caller_of r = User t po"
  shows "unscoped (dispatch r s)"
proof -
  from assms(1) have o: "opt_ns (handle s) = None \<or> opt_db (handle s) = None"
    and u: "users_only s"
    and c: "\<forall>k r. connecting s k = Some r \<longrightarrow> (\<exists>t po. caller_of r = User t po)"
    by (simp_all add: unscoped_def)
  have u': "users_only (dispatch r s)"
  proof (rule users_only_sub [OF u])
    fix p r' x
    assume a: "awaiting (dispatch r s) p = Some (r', x)"
    from dispatch_awaiting(1) [of r s]
    show "awaiting s p = Some (r', x) \<or> (\<exists>t po. caller_of r' = User t po)"
    proof (elim disjE exE)
      assume "awaiting (dispatch r s) = awaiting s"
      with a show ?thesis by simp
    next
      fix p0 sent
      assume "awaiting (dispatch r s) = (awaiting s)(p0 \<mapsto> (r, sent))"
      with a have "awaiting s p = Some (r', x) \<or> r' = r" by (simp split: if_splits)
      with assms(2) show ?thesis by blast
    qed
  qed
  show ?thesis
    unfolding unscoped_def using o u' c
    by (simp add: dispatch_handle_fields dispatch_awaiting(2))
qed

lemma unscoped_throw_to: "unscoped (throw_to c e s) = unscoped s"
  by (rule unscoped_cong) (simp_all add: throw_to_fields)

lemma unscoped_setup_call:
  assumes "unscoped s" and "caller_of r = User t po"
  shows "unscoped (setup_call r s)"
proof (cases "is_open s")
  case True
  then show ?thesis by (simp add: setup_call_def unscoped_dispatch [OF assms])
next
  case False
  have u: "users_only (createWebSocket r s) = users_only s"
    by (simp add: users_only_def createWebSocket_def)
  have c: "connecting (createWebSocket r s) = (connecting s)(length (sockets s) \<mapsto> r)"
    and h: "handle (createWebSocket r s) = handle s"
    by (simp_all add: createWebSocket_def)
  have "unscoped (createWebSocket r s)"
    unfolding unscoped_def u c h
    using assms by (auto simp: unscoped_def)
  with False show ?thesis by (simp add: setup_call_def)
qed

lemma unscoped_setup_opened:
  assumes "unscoped s" and "caller_of r = User t po"
  shows "unscoped (setup_opened k r s)"
proof -
  define s1 where "s1 = s\<lparr>handle := (handle s)\<lparr>ws := Some k\<rparr>,
      sockets := (sockets s)[k := (sockets s ! k)\<lparr>listening := True\<rparr>]\<rparr>"
  have "unscoped s1 = unscoped s"
    by (rule unscoped_cong) (simp_all add: s1_def)
  with assms(1) have u1: "unscoped s1" by simp
  from assms(1) have "opt_ns (handle s) = None \<or> opt_db (handle s) = None"
    by (simp add: unscoped_def)
  then have "setup_opened k r s = dispatch r s1"
    by (auto simp: setup_opened_def Let_def s1_def split: option.splits)
  then show ?thesis by (simp add: unscoped_dispatch [OF u1 assms(2)])
qed

lemma unscoped_set_readyState: "unscoped (set_readyState k rs s) = unscoped s"
  by (rule unscoped_cong) (simp_all add: set_readyState_def)

lemma unscoped_forget:
  assumes "unscoped s"
  shows "unscoped (s\<lparr>connecting := (connecting s)(k := None)\<rparr>)"
proof -
  have u: "users_only (s\<lparr>connecting := (connecting s)(k := None)\<rparr>) = users_only s"
    by (simp add: users_only_def)
  show ?thesis
    unfolding unscoped_def u using assms by (auto simp: unscoped_def)
qed

lemma unscoped_connecting:
  "unscoped s \<Longrightarrow> connecting s k = Some r \<Longrightarrow> \<exists>t po. caller_of r = User t po"
  by (auto simp: unscoped_def)

lemma unscoped_connect_failed: "unscoped s \<Longrightarrow> unscoped (connect_failed k key ev s)"
  by (simp add: connect_failed_def unscoped_throw_to unscoped_forget split: option.splits)

lemma return_to_User_connecting: "connecting (return_to (User t po) v s) = connecting s"
  by (cases po) simp_all

lemma resume_users_connecting:
  assumes "users_only s"
  shows "connecting (resume q s) = connecting s"
proof (cases "awaiting s q")
  case None
  then show ?thesis by (simp add: resume_def)
next
  case (Some a)
  obtain r' x' where a: "a = (r', x')" by (cases a)
  from assms Some a obtain t po where cal: "caller_of r' = User t po"
    unfolding users_only_def by blast
  show ?thesis
    using Some a cal
    by (simp add: resume_def Let_def throw_to_fields return_to_User_connecting
          split: option.splits sum.splits)
qed

lemma unscoped_resume:
  assumes "unscoped s"
  shows "unscoped (resume q s)"
proof -
  from assms have o: "opt_ns (handle s) = None \<or> opt_db (handle s) = None"
    and u: "users_only s"
    and c: "\<forall>k r. connecting s k = Some r \<longrightarrow> (\<exists>t po. caller_of r = User t po)"
    by (simp_all add: unscoped_def)
  note ru = resume_users [OF u, of q]
  have u': "users_only (resume q s)"
  proof (rule users_only_sub [OF u])
    fix p r' x
    assume a: "awaiting (resume q s) p = Some (r', x)"
    from ru(4) have "awaiting s p = Some (r', x)"
    proof
      assume "awaiting (resume q s) = awaiting s"
      with a show ?thesis by simp
    next
      assume "awaiting (resume q s) = (awaiting s)(q := None)"
      with a show ?thesis by (simp split: if_splits)
    qed
    then show "awaiting s p = Some (r', x) \<or> (\<exists>t po. caller_of r' = User t po)" ..
  qed
  show ?thesis
    unfolding unscoped_def using o u' c
    by (simp add: ru(1) resume_users_connecting [OF u])
qed

lemma unscoped_fold_resume: "unscoped s \<Longrightarrow> unscoped (fold resume ps s)"
  by (induction ps arbitrary: s) (simp_all add: unscoped_resume)

lemma unscoped_message:
  assumes "unscoped s"
  shows "unscoped (step rt (Message k x) s)"
proof -
  obtain h w out where m: "on_message (JSON_parse rt) x (handle s) (store s) = (h, w, out)"
    by (cases "on_message (JSON_parse rt) x (handle s) (store s)")
  have h: "opt_ns h = opt_ns (handle s)" "opt_db h = opt_db (handle s)"
    using on_message_handle_fields [of "JSON_parse rt" x "handle s" "store s"]
    by (simp_all add: m)
  define s1 where "s1 = s\<lparr>handle := h, store := w,
      console := console s @ (if out = Done then [] else [out])\<rparr>"
  have "unscoped (s1\<lparr>store := (store s1)\<lparr>jobs := []\<rparr>\<rparr>) = unscoped s"
    by (rule unscoped_cong) (simp_all add: s1_def h)
  with assms have "unscoped (s1\<lparr>store := (store s1)\<lparr>jobs := []\<rparr>\<rparr>)" by simp
  then have "unscoped (run_jobs s1)"
    unfolding run_jobs_def by (rule unscoped_fold_resume)
  then show ?thesis
    using assms by (simp add: step_Message m s1_def)
qed

lemma unscoped_step:
  assumes "unscoped s"
  shows "unscoped (step rt ev s)"
proof (cases ev)
  case (Call t op)
  from caller_of_request_of [of rt t op] obtain po
    where "caller_of (request_of rt t op) = User t po" by blast
  from unscoped_setup_call [OF assms this] show ?thesis by (simp add: Call step_Call)
next
  case (Open k)
  show ?thesis
  proof (cases "connecting s k")
    case None
    then show ?thesis
      using assms by (simp add: Open step_Open Let_def unscoped_set_readyState)
  next
    case (Some r)
    from unscoped_connecting [OF assms Some] obtain t po
      where cal: "caller_of r = User t po" by blast
    have "unscoped (set_readyState k OPEN s)"
      using assms by (simp add: unscoped_set_readyState)
    then have "unscoped ((set_readyState k OPEN s)
        \<lparr>connecting := (connecting (set_readyState k OPEN s))(k := None)\<rparr>)"
      by (rule unscoped_forget)
    then have "unscoped ((set_readyState k OPEN s)\<lparr>connecting := (connecting s)(k := None)\<rparr>)"
      by (simp add: set_readyState_def)
    from unscoped_setup_opened [OF this cal, of k] show ?thesis
      using assms by (simp add: Open step_Open Let_def Some)
  qed
next
  case (Error k e)
  then show ?thesis using assms by (simp add: step_def unscoped_connect_failed)
next
  case (Close k e)
  then show ?thesis
    using assms by (simp add: step_def unscoped_connect_failed unscoped_set_readyState)
next
  case (Message k x)
  then show ?thesis using assms by (simp add: unscoped_message)
next
  case CloseCall
  then show ?thesis
    using assms by (simp add: step_def unscoped_set_readyState split: option.splits)
qed

lemma users_only_reachable:
  assumes "ns = None \<or> db = None"
  shows "users_only (run rt evs (init ns db))"
proof -
  have "unscoped s \<Longrightarrow> unscoped (run rt evs s)" for s
    by (induction evs arbitrary: s) (simp_all add: run_Nil run_Cons unscoped_step)
  moreover have "unscoped (init ns db)"
    using assms by (auto simp: unscoped_def users_only_def init_def new_Surreal_def)
  ultimately have "unscoped (run rt evs (init ns db))" .
  then show ?thesis by (simp add: unscoped_def)
qed

end
